theory Spec2Isabelle
  imports Main "HOL-Library.Multiset"
begin

section \<open>Apache access log analysis: the parser and the aggregations\<close>

text \<open>
  The development follows \<^verbatim>\<open>Solutions/lab2_apache_log_student.py\<close>, a notebook
  whose code cells parse the lines of a web server log with one regular expression and
  aggregate the resulting rows with the collection operations of a distributed runtime.

  Text is a list of characters with code points below 256. The regular expression is
  compiled without flags, so its classes are the ASCII ones whatever the line contains.
\<close>

subsection \<open>Character classes of the pattern\<close>

definition is_space :: "char \<Rightarrow> bool" where
  \<comment> \<open>\<^verbatim>\<open>\s\<close>: space, tab, line feed, vertical tab, form feed, carriage return\<close>
  "is_space c \<longleftrightarrow> (let n = (of_char c :: nat) in n = 32 \<or> (9 \<le> n \<and> n \<le> 13))"

definition is_digit :: "char \<Rightarrow> bool" where
  \<comment> \<open>\<^verbatim>\<open>\d\<close>\<close>
  "is_digit c \<longleftrightarrow> (let n = (of_char c :: nat) in 48 \<le> n \<and> n \<le> 57)"

definition is_word :: "char \<Rightarrow> bool" where
  \<comment> \<open>\<^verbatim>\<open>\w\<close>: letters, digits and the underscore\<close>
  "is_word c \<longleftrightarrow> (let n = (of_char c :: nat) in
     (48 \<le> n \<and> n \<le> 57) \<or> (65 \<le> n \<and> n \<le> 90) \<or> (97 \<le> n \<and> n \<le> 122) \<or> n = 95)"

datatype cclass =
    NonSpace   \<comment> \<open>\<^verbatim>\<open>\S\<close>\<close>
  | Space      \<comment> \<open>\<^verbatim>\<open>\s\<close>\<close>
  | Digit      \<comment> \<open>\<^verbatim>\<open>\d\<close>\<close>
  | TimeChar   \<comment> \<open>\<^verbatim>\<open>[\w:/]\<close>\<close>
  | Sign       \<comment> \<open>\<^verbatim>\<open>[+\-]\<close>\<close>

fun in_class :: "cclass \<Rightarrow> char \<Rightarrow> bool" where
  "in_class NonSpace c = (\<not> is_space c)"
| "in_class Space c = is_space c"
| "in_class Digit c = is_digit c"
| "in_class TimeChar c = (is_word c \<or> c = CHR '':'' \<or> c = CHR ''/'')"
| "in_class Sign c = (c = CHR ''+'' \<or> c = CHR ''-'')"

subsection \<open>A backtracking matcher\<close>

text \<open>
  A pattern is the list of its items in order. A capturing group is the pair of items
  \<open>Open n\<close> and \<open>Close n\<close> around its body. Quantifiers are greedy: they take as many
  characters as they can and give them back one at a time when the rest of the pattern fails.
\<close>

datatype re =
    Bol               \<comment> \<open>\<^verbatim>\<open>^\<close>\<close>
  | Lit char          \<comment> \<open>a literal character\<close>
  | One cclass        \<comment> \<open>one character of a class\<close>
  | Rep nat cclass    \<comment> \<open>\<^verbatim>\<open>{n}\<close>\<close>
  | Star cclass       \<comment> \<open>\<^verbatim>\<open>*\<close>\<close>
  | Plus cclass       \<comment> \<open>\<^verbatim>\<open>+\<close>\<close>
  | Open nat          \<comment> \<open>\<^verbatim>\<open>(\<close> of group n\<close>
  | Close nat         \<comment> \<open>\<^verbatim>\<open>)\<close> of group n\<close>

record mstate =
  at_start :: bool            \<comment> \<open>the current offset in the subject string is 0\<close>
  opens :: "nat list"         \<comment> \<open>groups opened and not yet closed\<close>
  grps :: "nat \<Rightarrow> string"     \<comment> \<open>text captured by each group\<close>

definition adv :: "char \<Rightarrow> mstate \<Rightarrow> mstate" where
  \<comment> \<open>consume one character: it belongs to every open group\<close>
  "adv x c = c\<lparr>at_start := False,
              grps := fold (\<lambda>n g. g(n := g n @ [x])) (remdups (opens c)) (grps c)\<rparr>"

definition open_grp :: "nat \<Rightarrow> mstate \<Rightarrow> mstate" where
  "open_grp n c = c\<lparr>opens := n # opens c, grps := (grps c)(n := [])\<rparr>"

definition close_grp :: "nat \<Rightarrow> mstate \<Rightarrow> mstate" where
  "close_grp n c = c\<lparr>opens := removeAll n (opens c)\<rparr>"

fun match :: "re list \<Rightarrow> string \<Rightarrow> mstate \<Rightarrow> mstate option" where
  "match [] s c = Some c"
| "match (Bol # rs) s c = (if at_start c then match rs s c else None)"
| "match (Open n # rs) s c = match rs s (open_grp n c)"
| "match (Close n # rs) s c = match rs s (close_grp n c)"
| "match (Lit a # rs) [] c = None"
| "match (Lit a # rs) (x # xs) c = (if x = a then match rs xs (adv x c) else None)"
| "match (One k # rs) [] c = None"
| "match (One k # rs) (x # xs) c = (if in_class k x then match rs xs (adv x c) else None)"
| "match (Rep n k # rs) [] c = (if n = 0 then match rs [] c else None)"
| "match (Rep n k # rs) (x # xs) c =
     (if n = 0 then match rs (x # xs) c
      else if in_class k x then match (Rep (n - 1) k # rs) xs (adv x c) else None)"
| "match (Star k # rs) [] c = match rs [] c"
| "match (Star k # rs) (x # xs) c =
     (if in_class k x
      then (case match (Star k # rs) xs (adv x c) of
              Some m \<Rightarrow> Some m
            | None \<Rightarrow> match rs (x # xs) c)
      else match rs (x # xs) c)"
| "match (Plus k # rs) [] c = None"
| "match (Plus k # rs) (x # xs) c =
     (if in_class k x then match (Star k # rs) xs (adv x c) else None)"

definition init_state :: "bool \<Rightarrow> mstate" where
  "init_state b = \<lparr>at_start = b, opens = [], grps = (\<lambda>_. [])\<rparr>"

fun search_from :: "re list \<Rightarrow> string \<Rightarrow> bool \<Rightarrow> mstate option" where
  \<comment> \<open>try the pattern at the current offset, then at every later one; the flag says
      whether the current offset is 0\<close>
  "search_from rs [] b = match rs [] (init_state b)"
| "search_from rs (x # xs) b =
     (case match rs (x # xs) (init_state b) of
        Some m \<Rightarrow> Some m
      | None \<Rightarrow> search_from rs xs False)"

definition search :: "re list \<Rightarrow> string \<Rightarrow> mstate option" where
  \<comment> \<open>\<^verbatim>\<open>re.search(pattern, s)\<close>: the leftmost match, or None\<close>
  "search rs s = search_from rs s True"

definition group_of :: "mstate \<Rightarrow> nat \<Rightarrow> string" where
  \<comment> \<open>\<^verbatim>\<open>match.group(n)\<close>\<close>
  "group_of m n = grps m n"

definition APACHE_ACCESS_LOG_PATTERN :: "re list" where
  \<comment> \<open>\<^verbatim>\<open>^(\S+) (\S+) (\S+) \[([\w:/]+\s[+\-]\d{4})\] "(\S+) (\S+)\s*(\S*)\s*" (\d{3}) (\S+)\<close>\<close>
  "APACHE_ACCESS_LOG_PATTERN =
     [Bol,
      Open 1, Plus NonSpace, Close 1, Lit CHR '' '',
      Open 2, Plus NonSpace, Close 2, Lit CHR '' '',
      Open 3, Plus NonSpace, Close 3, Lit CHR '' '',
      Lit CHR ''['',
      Open 4, Plus TimeChar, One Space, One Sign, Rep 4 Digit, Close 4,
      Lit CHR '']'', Lit CHR '' '', Lit CHR 0x22,
      Open 5, Plus NonSpace, Close 5, Lit CHR '' '',
      Open 6, Plus NonSpace, Close 6,
      Star Space,
      Open 7, Star NonSpace, Close 7,
      Star Space,
      Lit CHR 0x22, Lit CHR '' '',
      Open 8, Rep 3 Digit, Close 8, Lit CHR '' '',
      Open 9, Plus NonSpace, Close 9]"

subsection \<open>Conversions and the timestamp\<close>

datatype exn = ValueError | KeyError | ZeroDivisionError

definition bind_exn :: "exn + 'a \<Rightarrow> ('a \<Rightarrow> exn + 'b) \<Rightarrow> exn + 'b" where
  \<comment> \<open>sequencing: the first exception raised ends the evaluation\<close>
  "bind_exn r f = (case r of Inl e \<Rightarrow> Inl e | Inr v \<Rightarrow> f v)"

definition is_uspace :: "char \<Rightarrow> bool" where
  \<comment> \<open>the characters that \<^verbatim>\<open>int\<close> and \<^verbatim>\<open>long\<close> ignore around a number
      in a unicode string: the ASCII white space, the separators 28 to 31, NEL and the
      no-break space\<close>
  "is_uspace c \<longleftrightarrow> (let n = (of_char c :: nat) in
     n = 32 \<or> (9 \<le> n \<and> n \<le> 13) \<or> (28 \<le> n \<and> n \<le> 31) \<or> n = 133 \<or> n = 160)"

definition digit_val :: "char \<Rightarrow> int" where
  "digit_val c = int (of_char c) - 48"

definition decimal :: "string \<Rightarrow> int" where
  "decimal ds = foldl (\<lambda>a c. 10 * a + digit_val c) 0 ds"

definition py_number :: "bool \<Rightarrow> string \<Rightarrow> exn + int" where
  \<comment> \<open>base 10 conversion of text: white space, an optional sign, white space, at least
      one digit, for \<^verbatim>\<open>long\<close> an optional L, white space; anything else is a
      ValueError\<close>
  "py_number allowL s =
     (let s1 = dropWhile is_uspace s;
          neg = (s1 \<noteq> [] \<and> hd s1 = CHR ''-'');
          s2 = (if s1 \<noteq> [] \<and> (hd s1 = CHR ''-'' \<or> hd s1 = CHR ''+'') then tl s1 else s1);
          s3 = dropWhile is_uspace s2;
          ds = takeWhile is_digit s3;
          s4 = dropWhile is_digit s3;
          s5 = (if allowL \<and> s4 \<noteq> [] \<and> (hd s4 = CHR ''L'' \<or> hd s4 = CHR ''l'') then tl s4 else s4);
          s6 = dropWhile is_uspace s5
      in if ds = [] \<or> s6 \<noteq> [] then Inl ValueError
         else Inr (if neg then - decimal ds else decimal ds))"

definition py_int :: "string \<Rightarrow> exn + int" where
  \<comment> \<open>\<^verbatim>\<open>int(s)\<close>\<close>
  "py_int s = py_number False s"

definition py_long :: "string \<Rightarrow> exn + int" where
  \<comment> \<open>\<^verbatim>\<open>long(s)\<close>\<close>
  "py_long s = py_number True s"

definition slice :: "string \<Rightarrow> nat \<Rightarrow> nat \<Rightarrow> string" where
  \<comment> \<open>\<^verbatim>\<open>s[i:j]\<close> for \<open>0 \<le> i \<le> j\<close>: never raises, the result may be short\<close>
  "slice s i j = take (j - i) (drop i s)"

definition month_map :: "(string \<times> int) list" where
  "month_map = [(''Jan'', 1), (''Feb'', 2), (''Mar'', 3), (''Apr'', 4), (''May'', 5), (''Jun'', 6),
     (''Jul'', 7), (''Aug'', 8), (''Sep'', 9), (''Oct'', 10), (''Nov'', 11), (''Dec'', 12)]"

definition lookup :: "('k \<times> 'v) list \<Rightarrow> 'k \<Rightarrow> exn + 'v" where
  \<comment> \<open>\<^verbatim>\<open>d[k]\<close>\<close>
  "lookup d k = (case map_of d k of None \<Rightarrow> Inl KeyError | Some v \<Rightarrow> Inr v)"

record datetime =
  year :: int
  month :: int
  day :: int
  hour :: int
  minute :: int
  second :: int

definition is_leap :: "int \<Rightarrow> bool" where
  "is_leap y \<longleftrightarrow> y mod 4 = 0 \<and> (y mod 100 \<noteq> 0 \<or> y mod 400 = 0)"

definition days_in_month :: "int \<Rightarrow> int \<Rightarrow> int" where
  "days_in_month y m =
     (if m = 2 then (if is_leap y then 29 else 28)
      else if m = 4 \<or> m = 6 \<or> m = 9 \<or> m = 11 then 30 else 31)"

definition mk_datetime :: "int \<Rightarrow> int \<Rightarrow> int \<Rightarrow> int \<Rightarrow> int \<Rightarrow> int \<Rightarrow> exn + datetime" where
  \<comment> \<open>\<^verbatim>\<open>datetime.datetime(year, month, day, hour, minute, second)\<close>: a field out of
      range is a ValueError\<close>
  "mk_datetime y mo d h mi s =
     (if 1 \<le> y \<and> y \<le> 9999 \<and> 1 \<le> mo \<and> mo \<le> 12 \<and> 1 \<le> d \<and> d \<le> days_in_month y mo
         \<and> 0 \<le> h \<and> h \<le> 23 \<and> 0 \<le> mi \<and> mi \<le> 59 \<and> 0 \<le> s \<and> s \<le> 59
      then Inr \<lparr>year = y, month = mo, day = d, hour = h, minute = mi, second = s\<rparr>
      else Inl ValueError)"

definition parse_apache_time :: "string \<Rightarrow> exn + datetime" where
  "parse_apache_time s =
     bind_exn (py_int (slice s 7 11)) (\<lambda>y.
     bind_exn (lookup month_map (slice s 3 6)) (\<lambda>mo.
     bind_exn (py_int (slice s 0 2)) (\<lambda>d.
     bind_exn (py_int (slice s 12 14)) (\<lambda>h.
     bind_exn (py_int (slice s 15 17)) (\<lambda>mi.
     bind_exn (py_int (slice s 18 20)) (\<lambda>sec.
       mk_datetime y mo d h mi sec))))))"

subsection \<open>The parser\<close>

record Row =
  host :: string
  client_identd :: string
  user_id :: string
  date_time :: datetime
  http_method :: string           \<comment> \<open>the field \<^verbatim>\<open>method\<close> of the source\<close>
  endpoint :: string
  protocol :: string
  response_code :: int
  content_size :: int

text \<open>
  The parser returns a pair: a row and 1, or the line and 0. The second component is
  the tag of a union with two cases, which is what the type below is; \<open>flag\<close> reads it.
\<close>

datatype parsed = Parsed Row | Failed string

fun flag :: "parsed \<Rightarrow> int" where
  "flag (Parsed r) = 1"
| "flag (Failed l) = 0"

definition parseApacheLogLine :: "string \<Rightarrow> exn + parsed" where
  "parseApacheLogLine logline =
     (case search APACHE_ACCESS_LOG_PATTERN logline of
        None \<Rightarrow> Inr (Failed logline)
      | Some m \<Rightarrow>
          (let size_field = group_of m 9 in
           bind_exn (if size_field = ''-'' then Inr 0 else py_long (group_of m 9)) (\<lambda>size.
           bind_exn (parse_apache_time (group_of m 4)) (\<lambda>dt.
           bind_exn (py_int (group_of m 8)) (\<lambda>code.
             Inr (Parsed \<lparr>host = group_of m 1,
                          client_identd = group_of m 2,
                          user_id = group_of m 3,
                          date_time = dt,
                          http_method = group_of m 5,
                          endpoint = group_of m 6,
                          protocol = group_of m 7,
                          response_code = code,
                          content_size = size\<rparr>))))))"

fun map_exn :: "('a \<Rightarrow> exn + 'b) \<Rightarrow> 'a list \<Rightarrow> exn + 'b list" where
  \<comment> \<open>mapping a function that may raise over a collection: the first exception ends the job\<close>
  "map_exn f [] = Inr []"
| "map_exn f (x # xs) =
     bind_exn (f x) (\<lambda>y. bind_exn (map_exn f xs) (\<lambda>ys. Inr (y # ys)))"

definition rows_of :: "parsed list \<Rightarrow> Row list" where
  \<comment> \<open>\<^verbatim>\<open>.filter(lambda s: s[1] == 1).map(lambda s: s[0])\<close>\<close>
  "rows_of ps = concat (map (\<lambda>p. case p of Parsed r \<Rightarrow> [r] | Failed l \<Rightarrow> []) (filter (\<lambda>s. flag s = 1) ps))"

definition lines_of :: "parsed list \<Rightarrow> string list" where
  \<comment> \<open>\<^verbatim>\<open>.filter(lambda s: s[1] == 0).map(lambda s: s[0])\<close>\<close>
  "lines_of ps = concat (map (\<lambda>p. case p of Parsed r \<Rightarrow> [] | Failed l \<Rightarrow> [l]) (filter (\<lambda>s. flag s = 0) ps))"

definition parseLogs :: "string list \<Rightarrow> exn + (parsed list \<times> Row list \<times> string list)" where
  \<comment> \<open>the argument is the content of the log file, line by line\<close>
  "parseLogs file =
     bind_exn (map_exn parseApacheLogLine file) (\<lambda>parsed_logs.
       let access_logs = rows_of parsed_logs;
           failed_logs = lines_of parsed_logs
       in Inr (parsed_logs, access_logs, failed_logs))"

subsection \<open>Collections\<close>

text \<open>
  The rows are held by the collections of the runtime the notebook runs on. A collection
  is a list of partitions; an operation works on each partition and then merges the partial
  results. The operations below follow the Python implementation of that runtime.

  \<^verbatim>\<open>reduceByKey\<close> places the combined pairs in \<open>numPartitions\<close> output
  partitions by \<open>partitionFunc\<close>, the hash of the key. Both are the runtime's own (the
  parallelism of the context and its portable hash); they are parameters here, and so of
  every analysis that counts by key. The grouping, the join, the removal of duplicates and
  the sort are modelled with one output partition: their results are only collected.
\<close>

type_synonym 'a rdd = "'a list list"

definition collect :: "'a rdd \<Rightarrow> 'a list" where
  "collect r = concat r"

definition rdd_map :: "('a \<Rightarrow> 'b) \<Rightarrow> 'a rdd \<Rightarrow> 'b rdd" where
  "rdd_map f r = map (map f) r"

definition rdd_filter :: "('a \<Rightarrow> bool) \<Rightarrow> 'a rdd \<Rightarrow> 'a rdd" where
  "rdd_filter p r = map (filter p) r"

definition rdd_count :: "'a rdd \<Rightarrow> int" where
  \<comment> \<open>\<^verbatim>\<open>count()\<close>: the sum of the sizes of the partitions\<close>
  "rdd_count r = sum_list (map (\<lambda>p. int (length p)) r)"

definition reduce_partition :: "('a \<Rightarrow> 'a \<Rightarrow> 'a) \<Rightarrow> 'a list \<Rightarrow> 'a list" where
  \<comment> \<open>the partial result of a partition: nothing for an empty one\<close>
  "reduce_partition f p = (case p of [] \<Rightarrow> [] | x # xs \<Rightarrow> [foldl f x xs])"

definition rdd_reduce :: "('a \<Rightarrow> 'a \<Rightarrow> 'a) \<Rightarrow> 'a rdd \<Rightarrow> exn + 'a" where
  \<comment> \<open>\<^verbatim>\<open>reduce(f)\<close>: reduce each partition, then the partial results; an empty
      collection is a ValueError\<close>
  "rdd_reduce f r =
     (case concat (map (reduce_partition f) r) of
        [] \<Rightarrow> Inl ValueError
      | v # vs \<Rightarrow> Inr (foldl f v vs))"

definition rdd_min :: "int rdd \<Rightarrow> exn + int" where
  "rdd_min r = rdd_reduce min r"

definition rdd_max :: "int rdd \<Rightarrow> exn + int" where
  "rdd_max r = rdd_reduce max r"

definition merge_value :: "('v \<Rightarrow> 'v \<Rightarrow> 'v) \<Rightarrow> ('k \<times> 'v) list \<Rightarrow> 'k \<times> 'v \<Rightarrow> ('k \<times> 'v) list" where
  \<comment> \<open>add one pair to a dictionary of combined values\<close>
  "merge_value f d kv =
     (case map_of d (fst kv) of
        None \<Rightarrow> d @ [kv]
      | Some a \<Rightarrow> map (\<lambda>e. if fst e = fst kv then (fst e, f (snd e) (snd kv)) else e) d)"

definition combine :: "('v \<Rightarrow> 'v \<Rightarrow> 'v) \<Rightarrow> ('k \<times> 'v) list \<Rightarrow> ('k \<times> 'v) list" where
  "combine f p = foldl (merge_value f) [] p"

definition bucket :: "nat \<Rightarrow> ('k \<Rightarrow> nat) \<Rightarrow> 'k \<Rightarrow> nat" where
  \<comment> \<open>the output partition of a key: \<^verbatim>\<open>partitionFunc(k) % numPartitions\<close>. With
      \<open>numPartitions = 0\<close> the runtime fails in this division as soon as there is a pair to
      place; the model reads 0 as 1, so that the analyses are total\<close>
  "bucket numPartitions partitionFunc k = partitionFunc k mod max 1 numPartitions"

definition reduceByKey ::
  "('v \<Rightarrow> 'v \<Rightarrow> 'v) \<Rightarrow> nat \<Rightarrow> ('k \<Rightarrow> nat) \<Rightarrow> ('k \<times> 'v) rdd \<Rightarrow> ('k \<times> 'v) rdd" where
  \<comment> \<open>\<^verbatim>\<open>reduceByKey(f, numPartitions, partitionFunc)\<close>: combine the values of each
      key inside every partition, send each combined pair to the output partition of its
      key, and combine again there\<close>
  "reduceByKey f numPartitions partitionFunc r =
     (let combined = concat (map (combine f) r)
      in map (\<lambda>i. combine f (filter (\<lambda>kv. bucket numPartitions partitionFunc (fst kv) = i) combined))
           [0..<max 1 numPartitions])"

definition rdd_distinct :: "'a rdd \<Rightarrow> 'a rdd" where
  "rdd_distinct r = [remdups (concat r)]"

definition groupByKey :: "('k \<times> 'v) rdd \<Rightarrow> ('k \<times> 'v list) rdd" where
  "groupByKey r =
     [map (\<lambda>k. (k, map snd (filter (\<lambda>kv. fst kv = k) (concat r)))) (remdups (map fst (concat r)))]"

definition join :: "('k \<times> 'v) rdd \<Rightarrow> ('k \<times> 'w) rdd \<Rightarrow> ('k \<times> ('v \<times> 'w)) rdd" where
  "join r1 r2 =
     [concat (map (\<lambda>kv. map (\<lambda>kw. (fst kv, (snd kv, snd kw)))
                              (filter (\<lambda>kw. fst kw = fst kv) (concat r2)))
                  (concat r1))]"

definition sortByKey :: "(int \<times> 'v) rdd \<Rightarrow> (int \<times> 'v) rdd" where
  "sortByKey r = [sort_key fst (concat r)]"

definition nsmallest :: "int \<Rightarrow> ('a \<Rightarrow> int) \<Rightarrow> 'a list \<Rightarrow> 'a list" where
  \<comment> \<open>\<^verbatim>\<open>heapq.nsmallest(n, xs, key)\<close>, the same as \<^verbatim>\<open>sorted(xs, key=key)[:n]\<close>;
      nothing for \<open>n \<le> 0\<close>\<close>
  "nsmallest n key xs = take (nat n) (sort_key key xs)"

definition takeOrdered :: "int \<Rightarrow> ('a \<Rightarrow> int) \<Rightarrow> 'a rdd \<Rightarrow> exn + 'a list" where
  \<comment> \<open>\<^verbatim>\<open>takeOrdered(num, key)\<close>: the smallest \<open>num\<close> of each partition, merged
      pairwise\<close>
  "takeOrdered num key r =
     rdd_reduce (\<lambda>a b. nsmallest num key (a @ b)) (map (\<lambda>p. [nsmallest num key p]) r)"

definition py_div :: "int \<Rightarrow> int \<Rightarrow> exn + int" where
  \<comment> \<open>\<^verbatim>\<open>a / b\<close> on integers: the floor of the quotient\<close>
  "py_div a b = (if b = 0 then Inl ZeroDivisionError else Inr (a div b))"

subsection \<open>The analyses\<close>

definition content_sizes :: "Row rdd \<Rightarrow> int rdd" where
  "content_sizes access_logs = rdd_map (\<lambda>log. content_size log) access_logs"

definition content_size_avg :: "Row rdd \<Rightarrow> exn + int" where
  \<comment> \<open>\<^verbatim>\<open>content_sizes.reduce(lambda a, b : a + b) / content_sizes.count()\<close>\<close>
  "content_size_avg access_logs =
     bind_exn (rdd_reduce (\<lambda>a b. a + b) (content_sizes access_logs)) (\<lambda>total.
       py_div total (rdd_count (content_sizes access_logs)))"

definition content_size_min :: "Row rdd \<Rightarrow> exn + int" where
  "content_size_min access_logs = rdd_min (content_sizes access_logs)"

definition content_size_max :: "Row rdd \<Rightarrow> exn + int" where
  "content_size_max access_logs = rdd_max (content_sizes access_logs)"

definition responseCodeToCount :: "nat \<Rightarrow> (int \<Rightarrow> nat) \<Rightarrow> Row rdd \<Rightarrow> (int \<times> int) rdd" where
  "responseCodeToCount numPartitions partitionFunc access_logs =
     reduceByKey (\<lambda>a b. a + b) numPartitions partitionFunc
       (rdd_map (\<lambda>log. (response_code log, 1)) access_logs)"

definition group_count :: "(Row \<Rightarrow> 'k) \<Rightarrow> nat \<Rightarrow> ('k \<Rightarrow> nat) \<Rightarrow> Row rdd \<Rightarrow> ('k \<times> int) rdd" where
  \<comment> \<open>the shape shared by the counts per response code, host, endpoint, day and hour\<close>
  "group_count sel numPartitions partitionFunc logs =
     reduceByKey (\<lambda>a b. a + b) numPartitions partitionFunc (rdd_map (\<lambda>log. (sel log, 1)) logs)"

definition top_k ::
  "int \<Rightarrow> (Row \<Rightarrow> 'k) \<Rightarrow> nat \<Rightarrow> ('k \<Rightarrow> nat) \<Rightarrow> Row rdd \<Rightarrow> exn + ('k \<times> int) list" where
  \<comment> \<open>the shape shared by the rankings: count per key, then
      \<^verbatim>\<open>takeOrdered(k, lambda s: -1 * s[1])\<close>\<close>
  "top_k k sel numPartitions partitionFunc logs =
     takeOrdered k (\<lambda>s. -1 * snd s) (group_count sel numPartitions partitionFunc logs)"

definition topEndpoints :: "nat \<Rightarrow> (string \<Rightarrow> nat) \<Rightarrow> Row rdd \<Rightarrow> exn + (string \<times> int) list" where
  "topEndpoints numPartitions partitionFunc access_logs =
     top_k 10 endpoint numPartitions partitionFunc access_logs"

definition badRecords :: "Row rdd \<Rightarrow> Row rdd" where
  "badRecords access_logs = rdd_filter (\<lambda>log. response_code log = 404) access_logs"

definition badEndpointsTop20 :: "nat \<Rightarrow> (string \<Rightarrow> nat) \<Rightarrow> Row rdd \<Rightarrow> exn + (string \<times> int) list" where
  "badEndpointsTop20 numPartitions partitionFunc access_logs =
     top_k 20 endpoint numPartitions partitionFunc (badRecords access_logs)"

definition dailyHosts :: "Row rdd \<Rightarrow> (int \<times> int) rdd" where
  \<comment> \<open>the number of distinct hosts of each day of the month, by day\<close>
  "dailyHosts access_logs =
     (let dayToHostPairTuple = groupByKey (rdd_map (\<lambda>log. (day (date_time log), host log)) access_logs);
          dayGroupedHosts = rdd_map (\<lambda>x. (fst x, snd x)) dayToHostPairTuple;
          dayHostCount = rdd_map (\<lambda>ab. (fst ab, int (length (remdups (snd ab))))) dayGroupedHosts
      in sortByKey dayHostCount)"

definition avgDailyReqPerHost :: "nat \<Rightarrow> (int \<Rightarrow> nat) \<Rightarrow> Row rdd \<Rightarrow> exn + (int \<times> int) list" where
  \<comment> \<open>the requests of each day divided by the distinct hosts of that day, by day\<close>
  "avgDailyReqPerHost numPartitions partitionFunc access_logs =
     (let dayAndHostTuple = rdd_distinct (reduceByKey (\<lambda>a b. a + b) numPartitions partitionFunc
            (rdd_map (\<lambda>log. (day (date_time log), 1)) access_logs));
          groupedByDay = join dayAndHostTuple (dailyHosts access_logs);
          sortedByDay = sortByKey groupedByDay
      in map_exn (\<lambda>ab. bind_exn (py_div (fst (snd ab)) (snd (snd ab))) (\<lambda>q. Inr (fst ab, q)))
           (collect sortedByDay))"


section \<open>Notions used in the proofs\<close>

text \<open>
  Nothing below is part of the program. These are the words in which the properties of the
  matcher are stated: runs of characters consumed, states with a group set, the suffixes of
  the pattern, and lines assembled from their fields; then the sum of the values of a key, the
  smallest elements of a list, the truncating division, and rows for examples.
\<close>

text \<open>Consuming a run of characters.\<close>

definition advs :: "string \<Rightarrow> mstate \<Rightarrow> mstate" where
  "advs u c = fold adv u c"

text \<open>The state in which group \<open>n\<close> holds the text \<open>u\<close>.\<close>

definition setg :: "nat \<Rightarrow> string \<Rightarrow> mstate \<Rightarrow> mstate" where
  "setg n u c = c\<lparr>grps := (grps c)(n := u)\<rparr>"

text \<open>The suffixes of the pattern, from the closing quote of the request, from the white space before it, from the protocol, from the end of the endpoint and from its start.\<close>

definition QPAT :: "re list" where
  "QPAT = [Lit CHR 0x22, Lit CHR '' '', Open 8, Rep 3 Digit, Close 8, Lit CHR '' '',
           Open 9, Plus NonSpace, Close 9]"

definition K3 :: "re list" where
  "K3 = Star Space # QPAT"

definition K2 :: "re list" where
  "K2 = Star NonSpace # Close 7 # K3"

definition K1 :: "re list" where
  "K1 = Close 6 # Star Space # Open 7 # K2"

definition TAIL :: "re list" where
  "TAIL = Open 6 # Plus NonSpace # K1"

text \<open>The text from the closing quote on.\<close>

definition tl_text :: "string \<Rightarrow> string \<Rightarrow> string \<Rightarrow> string" where
  "tl_text e g9 rest = CHR 0x22 # CHR '' '' # e @ CHR '' '' # g9 @ rest"

text \<open>A group holding a run of non-space characters, followed by a space; and the group of the timestamp.\<close>

definition TOK :: "nat \<Rightarrow> re list" where
  "TOK n = [Open n, Plus NonSpace, Close n, Lit CHR '' '']"

definition TS :: "re list" where
  "TS = [Open 4, Plus TimeChar, One Space, One Sign, Rep 4 Digit, Close 4]"

text \<open>The white space, the sign and the four digits that end the timestamp.\<close>

definition zone_ok :: "char \<Rightarrow> char \<Rightarrow> string \<Rightarrow> bool" where
  "zone_ok w sg z \<longleftrightarrow> is_space w \<and> in_class Sign sg \<and> length z = 4 \<and> (\<forall>x\<in>set z. is_digit x)"

text \<open>The text up to the space after the request verb, and the state of the matcher there.\<close>

definition head_text :: "string \<Rightarrow> string \<Rightarrow> string \<Rightarrow> string \<Rightarrow> string \<Rightarrow> string" where
  "head_text g1 g2 g3 g4 g5 =
     g1 @ CHR '' '' # g2 @ CHR '' '' # g3 @ CHR '' '' # CHR ''['' # g4 @
     CHR '']'' # CHR '' '' # CHR 0x22 # g5 @ [CHR '' '']"

definition head_state :: "string \<Rightarrow> string \<Rightarrow> string \<Rightarrow> string \<Rightarrow> string \<Rightarrow> mstate" where
  "head_state g1 g2 g3 g4 g5 =
     setg 5 g5 (setg 4 g4 (setg 3 g3 (setg 2 g2 (setg 1 g1 (init_state False)))))"

text \<open>A non-empty run of non-space characters.\<close>

definition token :: "string \<Rightarrow> bool" where
  "token u \<longleftrightarrow> u \<noteq> [] \<and> (\<forall>x\<in>set u. \<not> is_space x)"

text \<open>The fields of a line. The timestamp is split in its date and time, the white space, the sign and the zone; the request in the verb, the endpoint, the white space after it, the protocol and the white space before the closing quote; \<open>p_rest\<close> is whatever follows the size.\<close>

record parts =
  p_host :: string
  p_ident :: string
  p_user :: string
  p_time :: string
  p_ws :: char
  p_sign :: char
  p_zone :: string
  p_method :: string
  p_endpoint :: string
  p_sep :: string
  p_protocol :: string
  p_trail :: string
  p_status :: string
  p_size :: string
  p_rest :: string

definition timestamp :: "parts \<Rightarrow> string" where
  "timestamp p = p_time p @ [p_ws p, p_sign p] @ p_zone p"

definition text_of :: "parts \<Rightarrow> string" where
  "text_of p =
     p_host p @ '' '' @ p_ident p @ '' '' @ p_user p @ '' ['' @ timestamp p @ ''] '' @
     [CHR 0x22] @ p_method p @ '' '' @ p_endpoint p @ p_sep p @ p_protocol p @ p_trail p @ [CHR 0x22] @
     '' '' @ p_status p @ '' '' @ p_size p @ p_rest p"

text \<open>The fields are well formed when each is made of the characters its place in the pattern accepts.\<close>

definition wf_parts :: "parts \<Rightarrow> bool" where
  "wf_parts p \<longleftrightarrow>
     token (p_host p) \<and> token (p_ident p) \<and> token (p_user p) \<and>
     p_time p \<noteq> [] \<and> (\<forall>x\<in>set (p_time p). in_class TimeChar x) \<and>
     zone_ok (p_ws p) (p_sign p) (p_zone p) \<and>
     token (p_method p) \<and> token (p_endpoint p) \<and>
     (\<forall>x\<in>set (p_sep p). is_space x) \<and> (\<forall>x\<in>set (p_protocol p). \<not> is_space x) \<and>
     (\<forall>x\<in>set (p_trail p). is_space x) \<and>
     length (p_status p) = 3 \<and> (\<forall>x\<in>set (p_status p). is_digit x) \<and>
     token (p_size p)"

text \<open>The request is split the way the greedy quantifiers split it: a protocol is separated from the endpoint by white space, and without a protocol the white space before the quote is the separator.\<close>

definition canon :: "parts \<Rightarrow> bool" where
  "canon p \<longleftrightarrow> (p_sep p = [] \<longrightarrow> p_protocol p = []) \<and> (p_protocol p = [] \<longrightarrow> p_trail p = [])"

text \<open>The state of the matcher after a line with these fields.\<close>

definition state_of :: "parts \<Rightarrow> mstate" where
  "state_of p =
     setg 9 (p_size p) (setg 8 (p_status p) (setg 7 (p_protocol p) (setg 6 (p_endpoint p)
       (head_state (p_host p) (p_ident p) (p_user p) (timestamp p) (p_method p)))))"

text \<open>The size field of a line: what group 9 holds when the pattern matches.\<close>

definition size_field :: "string \<Rightarrow> string option" where
  "size_field line = map_option (\<lambda>m. group_of m 9) (search APACHE_ACCESS_LOG_PATTERN line)"

text \<open>The sum of the values of a key.\<close>

definition total_of :: "'k \<Rightarrow> ('k \<times> int) list \<Rightarrow> int" where
  "total_of k p = sum_list (map snd (filter (\<lambda>kv. fst kv = k) p))"

text \<open>The list \<open>R\<close> holds distinct elements of \<open>E\<close>, as many as \<open>n\<close> allows, and no element left out has a smaller key.\<close>

definition smallest_of :: "int \<Rightarrow> ('a \<Rightarrow> int) \<Rightarrow> 'a list \<Rightarrow> 'a list \<Rightarrow> bool" where
  "smallest_of n key R E \<longleftrightarrow>
     set R \<subseteq> set E \<and> distinct R \<and> length R = min (nat n) (length E) \<and>
     (\<forall>x\<in>set R. \<forall>y\<in>set E - set R. key x \<le> key y)"

text \<open>Rows for examples.\<close>

definition example_row :: "string \<Rightarrow> string \<Rightarrow> int \<Rightarrow> int \<Rightarrow> Row" where
  "example_row h e d sz =
     \<lparr>host = h, client_identd = ''-'', user_id = ''-'',
      date_time = \<lparr>year = 1995, month = 8, day = d, hour = 0, minute = 0, second = 0\<rparr>,
      http_method = ''GET'', endpoint = e, protocol = ''HTTP/1.0'', response_code = 200,
      content_size = sz\<rparr>"

definition example_logs :: "Row rdd" where
  "example_logs =
     [[example_row ''a.org'' ''/x'' 1 10, example_row ''b.org'' ''/yy'' 1 20],
      [example_row ''a.org'' ''/yy'' 2 30, example_row ''a.org'' ''/z'' 2 40,
       example_row ''c.org'' ''/yy'' 2 50]]"

text \<open>A stream of three rows, and two pieces of it.\<close>

definition example_whole :: "Row list" where
  "example_whole =
     [example_row ''a.org'' ''/x'' 1 10, example_row ''b.org'' ''/yy'' 1 20,
      example_row ''a.org'' ''/x'' 2 30]"

definition example_left :: "Row list" where
  "example_left = [example_row ''a.org'' ''/x'' 1 10, example_row ''a.org'' ''/x'' 2 30]"

definition example_right :: "Row list" where
  "example_right = [example_row ''b.org'' ''/yy'' 1 20]"

text \<open>The truncating division the specification speaks of: the quotient rounded toward zero.\<close>

definition trunc_div :: "int \<Rightarrow> int \<Rightarrow> int" where
  "trunc_div a b = sgn a * sgn b * (\<bar>a\<bar> div \<bar>b\<bar>)"

text \<open>The number of requests and the number of distinct hosts of a day of the month.\<close>

definition requests_on :: "int \<Rightarrow> Row rdd \<Rightarrow> int" where
  "requests_on d logs = int (length (filter (\<lambda>log. day (date_time log) = d) (collect logs)))"

definition hosts_on :: "int \<Rightarrow> Row rdd \<Rightarrow> int" where
  "hosts_on d logs =
     int (length (remdups (map host (filter (\<lambda>log. day (date_time log) = d) (collect logs)))))"

section \<open>Properties of the matcher\<close>

lemma is_space_sp [simp]: "is_space CHR '' ''"
  by (simp add: is_space_def)

lemma not_space_neq_sp: "\<not> is_space x \<Longrightarrow> x \<noteq> CHR '' ''"
  by auto

lemma is_space_not_dq: "is_space x \<Longrightarrow> x \<noteq> CHR 0x22"
  by (auto simp: is_space_def)

lemma is_digit_not_space: "is_digit x \<Longrightarrow> \<not> is_space x"
  by (auto simp: is_digit_def is_space_def Let_def)

lemma is_digit_not_dq: "is_digit x \<Longrightarrow> x \<noteq> CHR 0x22"
  by (auto simp: is_digit_def)

lemma timechar_not_space: "in_class TimeChar x \<Longrightarrow> \<not> is_space x"
  by (auto simp: is_word_def is_space_def Let_def)

lemma sign_not_space: "in_class Sign x \<Longrightarrow> \<not> is_space x"
  by (auto simp: is_space_def)

lemma advs_Nil [simp]: "advs [] c = c"
  by (simp add: advs_def)

lemma advs_Cons [simp]: "advs (x # u) c = advs u (adv x c)"
  by (simp add: advs_def)

lemma advs_append: "advs (u @ v) c = advs v (advs u c)"
  by (simp add: advs_def)

lemma opens_adv [simp]: "opens (adv x c) = opens c"
  by (simp add: adv_def)

lemma opens_advs [simp]: "opens (advs u c) = opens c"
  by (induction u arbitrary: c) auto

lemma fold_snoc_distinct:
  "distinct ns \<Longrightarrow> fold (\<lambda>n g. g(n := g n @ [x])) ns g k = (if k \<in> set ns then g k @ [x] else g k)"
  by (induction ns arbitrary: g) auto

lemma grps_adv: "grps (adv x c) n = (if n \<in> set (opens c) then grps c n @ [x] else grps c n)"
  by (simp add: adv_def fold_snoc_distinct)

lemma grps_advs: "grps (advs u c) n = (if n \<in> set (opens c) then grps c n @ u else grps c n)"
  by (induction u arbitrary: c) (auto simp: grps_adv)

lemma at_start_advs: "at_start (advs u c) = (at_start c \<and> u = [])"
  by (induction u arbitrary: c) (auto simp: adv_def)

lemma setg_simps [simp]:
  "opens (setg n u c) = opens c" "at_start (setg n u c) = at_start c"
  "grps (setg n u c) k = (if k = n then u else grps c k)"
  by (simp_all add: setg_def)

lemma adv_idle: "opens c = [] \<Longrightarrow> \<not> at_start c \<Longrightarrow> adv x c = c"
  by (simp add: adv_def)

lemma advs_idle: "opens c = [] \<Longrightarrow> \<not> at_start c \<Longrightarrow> advs u c = c"
  by (induction u) (auto simp: adv_idle)

lemma capture: "opens c = [] \<Longrightarrow> \<not> at_start c \<Longrightarrow> close_grp n (advs u (open_grp n c)) = setg n u c"
  by (rule mstate.equality) (auto simp: close_grp_def open_grp_def setg_def grps_advs at_start_advs fun_eq_iff)

lemma capture_first: "u \<noteq> [] \<Longrightarrow> close_grp n (advs u (open_grp n (init_state b))) = setg n u (init_state False)"
  by (rule mstate.equality) (auto simp: close_grp_def open_grp_def setg_def grps_advs at_start_advs fun_eq_iff init_state_def)

lemma star_longest:
  "\<forall>x\<in>set u. in_class k x \<Longrightarrow> s' = [] \<or> \<not> in_class k (hd s') \<Longrightarrow>
   match rs s' (advs u c) = Some m \<Longrightarrow> match (Star k # rs) (u @ s') c = Some m"
proof (induction u arbitrary: c)
  case Nil
  then show ?case by (cases s') auto
next
  case (Cons x u)
  then show ?case by simp
qed

lemma star_det:
  assumes rej: "\<And>x t c'. in_class k x \<Longrightarrow> match rs (x # t) c' = None"
  shows "\<forall>x\<in>set u. in_class k x \<Longrightarrow> s' = [] \<or> \<not> in_class k (hd s') \<Longrightarrow>
         match (Star k # rs) (u @ s') c = match rs s' (advs u c)"
proof (induction u arbitrary: c)
  case Nil
  then show ?case by (cases s') auto
next
  case (Cons x u)
  then show ?case by (simp add: rej split: option.split)
qed

lemma star_giveback:
  "\<forall>x\<in>set u. in_class k x \<Longrightarrow> in_class k y \<Longrightarrow> s' = [] \<or> \<not> in_class k (hd s') \<Longrightarrow>
   match rs s' (advs (u @ [y]) c) = None \<Longrightarrow> match rs (y # s') (advs u c) = Some m \<Longrightarrow>
   match (Star k # rs) (u @ y # s') c = Some m"
proof (induction u arbitrary: c)
  case Nil
  then show ?case by (cases s') auto
next
  case (Cons x u)
  then show ?case by simp
qed

lemma plus_longest:
  "u \<noteq> [] \<Longrightarrow> \<forall>x\<in>set u. in_class k x \<Longrightarrow> s' = [] \<or> \<not> in_class k (hd s') \<Longrightarrow>
   match rs s' (advs u c) = Some m \<Longrightarrow> match (Plus k # rs) (u @ s') c = Some m"
  by (cases u) (auto intro: star_longest)

lemma plus_det:
  assumes rej: "\<And>x t c'. in_class k x \<Longrightarrow> match rs (x # t) c' = None"
  shows "u \<noteq> [] \<Longrightarrow> \<forall>x\<in>set u. in_class k x \<Longrightarrow> s' = [] \<or> \<not> in_class k (hd s') \<Longrightarrow>
         match (Plus k # rs) (u @ s') c = match rs s' (advs u c)"
  using star_det[OF rej] by (cases u) auto

lemma plus_giveback:
  "u \<noteq> [] \<Longrightarrow> \<forall>x\<in>set u. in_class k x \<Longrightarrow> in_class k y \<Longrightarrow> s' = [] \<or> \<not> in_class k (hd s') \<Longrightarrow>
   match rs s' (advs (u @ [y]) c) = None \<Longrightarrow> match rs (y # s') (advs u c) = Some m \<Longrightarrow>
   match (Plus k # rs) (u @ y # s') c = Some m"
  by (cases u) (auto intro: star_giveback)

subsection \<open>The end of the pattern: the request, the status and the size\<close>

lemma rep_exact:
  "length u = n \<Longrightarrow> \<forall>x\<in>set u. in_class k x \<Longrightarrow>
   match (Rep n k # rs) (u @ s) c = match rs s (advs u c)"
proof (induction u arbitrary: n c)
  case Nil
  then show ?case by (cases s) auto
next
  case (Cons x u)
  then show ?case by auto
qed

lemma dropWhile_stop: "dropWhile P s = [] \<or> \<not> P (hd (dropWhile P s))"
  using hd_dropWhile by blast

lemma takeWhile_all: "\<forall>x\<in>set (takeWhile P s). P x"
  by (auto dest: set_takeWhileD)

lemma QPAT_rej: "s = [] \<or> hd s \<noteq> CHR 0x22 \<Longrightarrow> match QPAT s c = None"
  by (cases s) (auto simp: QPAT_def)

lemma K3_eq: "match K3 s c = match QPAT (dropWhile is_space s) (advs (takeWhile is_space s) c)"
proof -
  have "match (Star Space # QPAT) (takeWhile is_space s @ dropWhile is_space s) c
        = match QPAT (dropWhile is_space s) (advs (takeWhile is_space s) c)"
  proof (rule star_det)
    show "match QPAT (x # t) c' = None" if "in_class Space x" for x t c'
      using that by (simp add: QPAT_rej is_space_not_dq)
    show "\<forall>x\<in>set (takeWhile is_space s). in_class Space x"
      using takeWhile_all[of is_space s] by simp
    show "dropWhile is_space s = [] \<or> \<not> in_class Space (hd (dropWhile is_space s))"
      using dropWhile_stop[of is_space s] by simp
  qed
  then show ?thesis by (simp add: K3_def)
qed

lemma K3_rej:
  "dropWhile is_space s = [] \<or> hd (dropWhile is_space s) \<noteq> CHR 0x22 \<Longrightarrow> match K3 s c = None"
  by (simp add: K3_eq QPAT_rej)

lemma K2_rej:
  "\<forall>x\<in>set r. \<not> is_space x \<and> x \<noteq> CHR 0x22 \<Longrightarrow> s' = [] \<or> is_space (hd s') \<Longrightarrow>
   (\<And>c'. match K3 s' c' = None) \<Longrightarrow> match K2 (r @ s') c = None"
proof (induction r arbitrary: c)
  case Nil
  then show ?case by (cases s') (auto simp: K2_def)
next
  case (Cons x r)
  have "match K3 (x # r @ s') c' = None" for c'
    using Cons.prems(1) by (intro K3_rej) simp
  moreover have "match K2 (r @ s') c' = None" for c'
    using Cons by simp
  ultimately show ?case using Cons.prems(1) by (simp add: K2_def)
qed

lemma Q_ok:
  assumes c: "opens c = []" "\<not> at_start c"
    and e: "length e = 3" "\<forall>x\<in>set e. is_digit x"
    and g9: "g9 \<noteq> []" "\<forall>x\<in>set g9. \<not> is_space x"
    and rest: "rest = [] \<or> is_space (hd rest)"
  shows "match QPAT (tl_text e g9 rest) c = Some (setg 9 g9 (setg 8 e c))"
proof -
  have "match QPAT (tl_text e g9 rest) c
        = match (Rep 3 Digit # [Close 8, Lit CHR '' '', Open 9, Plus NonSpace, Close 9])
            (e @ CHR '' '' # g9 @ rest) (open_grp 8 c)"
    using c by (simp add: QPAT_def tl_text_def adv_idle)
  also have "\<dots> = match [Close 8, Lit CHR '' '', Open 9, Plus NonSpace, Close 9]
            (CHR '' '' # g9 @ rest) (advs e (open_grp 8 c))"
    using e by (intro rep_exact) auto
  also have "\<dots> = match (Plus NonSpace # [Close 9]) (g9 @ rest) (open_grp 9 (setg 8 e c))"
    using c by (simp add: capture adv_idle)
  also have "\<dots> = Some (close_grp 9 (advs g9 (open_grp 9 (setg 8 e c))))"
    using g9 rest by (intro plus_longest) auto
  also have "\<dots> = Some (setg 9 g9 (setg 8 e c))"
    using c by (simp add: capture)
  finally show ?thesis .
qed

lemma K3_ok:
  assumes c: "opens c = []" "\<not> at_start c"
    and e: "length e = 3" "\<forall>x\<in>set e. is_digit x"
    and g9: "g9 \<noteq> []" "\<forall>x\<in>set g9. \<not> is_space x"
    and rest: "rest = [] \<or> is_space (hd rest)"
    and w: "\<forall>x\<in>set w. is_space x"
  shows "match K3 (w @ tl_text e g9 rest) c = Some (setg 9 g9 (setg 8 e c))"
proof -
  have "dropWhile is_space (w @ tl_text e g9 rest) = tl_text e g9 rest"
    using w by (simp add: dropWhile_append3 tl_text_def is_space_def)
  then show ?thesis
    using c by (simp add: K3_eq advs_idle Q_ok[OF c e g9 rest])
qed

lemma K2_ok:
  assumes c: "opens c = []" "\<not> at_start c"
    and e: "length e = 3" "\<forall>x\<in>set e. is_digit x"
    and g9: "g9 \<noteq> []" "\<forall>x\<in>set g9. \<not> is_space x"
    and rest: "rest = [] \<or> is_space (hd rest)"
    and g7: "\<forall>x\<in>set g7. \<not> is_space x"
    and w2: "\<forall>x\<in>set w2. is_space x"
  shows "match (Open 7 # K2) (g7 @ w2 @ tl_text e g9 rest) c
         = Some (setg 9 g9 (setg 8 e (setg 7 g7 c)))"
proof (cases "w2 = []")
  case True
  have none: "match (Close 7 # K3) (CHR '' '' # e @ CHR '' '' # g9 @ rest)
               (advs (g7 @ [CHR 0x22]) (open_grp 7 c)) = None"
  proof -
    obtain a e' where "e = a # e'" using e(1) by (cases e) auto
    then show ?thesis using e(2) by (simp add: K3_rej is_digit_not_dq is_digit_not_space)
  qed
  have some: "match (Close 7 # K3) (CHR 0x22 # CHR '' '' # e @ CHR '' '' # g9 @ rest)
               (advs g7 (open_grp 7 c)) = Some (setg 9 g9 (setg 8 e (setg 7 g7 c)))"
    using K3_ok[OF _ _ e g9 rest, of "setg 7 g7 c" "[]"] c
    by (simp add: capture tl_text_def)
  have "match (Star NonSpace # Close 7 # K3) (g7 @ CHR 0x22 # CHR '' '' # e @ CHR '' '' # g9 @ rest)
          (open_grp 7 c) = Some (setg 9 g9 (setg 8 e (setg 7 g7 c)))"
    using g7 none some by (intro star_giveback) (auto simp: is_space_def)
  then show ?thesis using True by (simp add: K2_def tl_text_def)
next
  case False
  have "match (Star NonSpace # Close 7 # K3) (g7 @ (w2 @ tl_text e g9 rest)) (open_grp 7 c)
        = Some (setg 9 g9 (setg 8 e (setg 7 g7 c)))"
  proof (rule star_longest)
    show "\<forall>x\<in>set g7. in_class NonSpace x" using g7 by simp
    show "w2 @ tl_text e g9 rest = [] \<or> \<not> in_class NonSpace (hd (w2 @ tl_text e g9 rest))"
      using False w2 by (cases w2) auto
    show "match (Close 7 # K3) (w2 @ tl_text e g9 rest) (advs g7 (open_grp 7 c))
          = Some (setg 9 g9 (setg 8 e (setg 7 g7 c)))"
      using K3_ok[OF _ _ e g9 rest w2, of "setg 7 g7 c"] c by (simp add: capture)
  qed
  then show ?thesis by (simp add: K2_def)
qed

lemma K1_ok:
  assumes c: "opens c = []" "\<not> at_start c"
    and e: "length e = 3" "\<forall>x\<in>set e. is_digit x"
    and g9: "g9 \<noteq> []" "\<forall>x\<in>set g9. \<not> is_space x"
    and rest: "rest = [] \<or> is_space (hd rest)"
    and w1: "\<forall>x\<in>set w1. is_space x"
    and g7: "\<forall>x\<in>set g7. \<not> is_space x"
    and w2: "\<forall>x\<in>set w2. is_space x"
    and canon: "g7 = [] \<longrightarrow> w2 = []"
  shows "match K1 (w1 @ g7 @ w2 @ tl_text e g9 rest) (advs g6 (open_grp 6 c))
         = Some (setg 9 g9 (setg 8 e (setg 7 g7 (setg 6 g6 c))))"
proof -
  have "match (Star Space # Open 7 # K2) (w1 @ (g7 @ w2 @ tl_text e g9 rest)) (setg 6 g6 c)
        = Some (setg 9 g9 (setg 8 e (setg 7 g7 (setg 6 g6 c))))"
  proof (rule star_longest)
    show "\<forall>x\<in>set w1. in_class Space x" using w1 by simp
    show "g7 @ w2 @ tl_text e g9 rest = [] \<or> \<not> in_class Space (hd (g7 @ w2 @ tl_text e g9 rest))"
      using g7 canon by (cases g7) (auto simp: tl_text_def is_space_def)
    show "match (Open 7 # K2) (g7 @ w2 @ tl_text e g9 rest) (advs w1 (setg 6 g6 c))
          = Some (setg 9 g9 (setg 8 e (setg 7 g7 (setg 6 g6 c))))"
      using K2_ok[OF _ _ e g9 rest g7 w2, of "setg 6 g6 c"] c by (simp add: advs_idle)
  qed
  then show ?thesis using c by (simp add: K1_def capture)
qed

lemma K1_none:
  assumes e: "length e = 3" "\<forall>x\<in>set e. is_digit x"
    and g9: "g9 \<noteq> []" "\<forall>x\<in>set g9. \<not> is_space x" "hd g9 \<noteq> CHR 0x22"
  shows "match K1 (CHR '' '' # e @ CHR '' '' # g9 @ rest) c = None"
proof -
  obtain a e' where ae: "e = a # e'" using e(1) by (cases e) auto
  obtain b g9' where bg: "g9 = b # g9'" using g9(1) by (cases g9) auto
  have a: "is_digit a" and b: "\<not> is_space b" "b \<noteq> CHR 0x22"
    using e(2) g9(2,3) ae bg by auto
  have inner: "match K2 (e @ CHR '' '' # g9 @ rest) c' = None" for c'
  proof (rule K2_rej)
    show "\<forall>x\<in>set e. \<not> is_space x \<and> x \<noteq> CHR 0x22"
      using e(2) by (auto simp: is_digit_not_space is_digit_not_dq)
    show "CHR '' '' # g9 @ rest = [] \<or> is_space (hd (CHR '' '' # g9 @ rest))" by simp
    show "match K3 (CHR '' '' # g9 @ rest) c'' = None" for c''
      using b bg by (intro K3_rej) simp
  qed
  have outer: "match K2 ([] @ CHR '' '' # e @ CHR '' '' # g9 @ rest) c' = None" for c'
  proof (rule K2_rej)
    show "\<forall>x\<in>set ([]::string). \<not> is_space x \<and> x \<noteq> CHR 0x22" by simp
    show "CHR '' '' # e @ CHR '' '' # g9 @ rest = [] \<or> is_space (hd (CHR '' '' # e @ CHR '' '' # g9 @ rest))"
      by simp
    show "match K3 (CHR '' '' # e @ CHR '' '' # g9 @ rest) c'' = None" for c''
      using a ae by (intro K3_rej) (simp add: is_digit_not_space is_digit_not_dq)
  qed
  have "match (Star Space # Open 7 # K2) (e @ CHR '' '' # g9 @ rest) c' = None" for c'
    using inner a ae by (simp add: is_digit_not_space)
  then show ?thesis using outer by (simp add: K1_def)
qed

lemma TAIL_ok:
  assumes c: "opens c = []" "\<not> at_start c"
    and g6: "g6 \<noteq> []" "\<forall>x\<in>set g6. \<not> is_space x"
    and w1: "\<forall>x\<in>set w1. is_space x"
    and g7: "\<forall>x\<in>set g7. \<not> is_space x"
    and w2: "\<forall>x\<in>set w2. is_space x"
    and canon: "w1 = [] \<longrightarrow> g7 = []" "g7 = [] \<longrightarrow> w2 = []"
    and e: "length e = 3" "\<forall>x\<in>set e. is_digit x"
    and g9: "g9 \<noteq> []" "\<forall>x\<in>set g9. \<not> is_space x" "hd g9 \<noteq> CHR 0x22"
    and rest: "rest = [] \<or> is_space (hd rest)"
  shows "match TAIL (g6 @ w1 @ g7 @ w2 @ tl_text e g9 rest) c
         = Some (setg 9 g9 (setg 8 e (setg 7 g7 (setg 6 g6 c))))"
proof (cases "w1 = []")
  case True
  then have emp: "g7 = []" "w2 = []" using canon by auto
  have "match (Plus NonSpace # K1) (g6 @ CHR 0x22 # (CHR '' '' # e @ CHR '' '' # g9 @ rest)) (open_grp 6 c)
        = Some (setg 9 g9 (setg 8 e (setg 7 g7 (setg 6 g6 c))))"
  proof (rule plus_giveback)
    show "g6 \<noteq> []" by fact
    show "\<forall>x\<in>set g6. in_class NonSpace x" using g6 by simp
    show "in_class NonSpace (CHR 0x22)" by (simp add: is_space_def)
    show "CHR '' '' # e @ CHR '' '' # g9 @ rest = [] \<or>
          \<not> in_class NonSpace (hd (CHR '' '' # e @ CHR '' '' # g9 @ rest))" by simp
    show "match K1 (CHR '' '' # e @ CHR '' '' # g9 @ rest) (advs (g6 @ [CHR 0x22]) (open_grp 6 c)) = None"
      by (rule K1_none[OF e g9(1,2,3)])
    show "match K1 (CHR 0x22 # CHR '' '' # e @ CHR '' '' # g9 @ rest) (advs g6 (open_grp 6 c))
          = Some (setg 9 g9 (setg 8 e (setg 7 g7 (setg 6 g6 c))))"
      using K1_ok[OF c e g9(1,2) rest, of "[]" "[]" "[]" g6] emp by (simp add: tl_text_def)
  qed
  then show ?thesis using True emp by (simp add: TAIL_def tl_text_def)
next
  case False
  have "match (Plus NonSpace # K1) (g6 @ (w1 @ g7 @ w2 @ tl_text e g9 rest)) (open_grp 6 c)
        = Some (setg 9 g9 (setg 8 e (setg 7 g7 (setg 6 g6 c))))"
  proof (rule plus_longest)
    show "g6 \<noteq> []" by fact
    show "\<forall>x\<in>set g6. in_class NonSpace x" using g6 by simp
    show "w1 @ g7 @ w2 @ tl_text e g9 rest = [] \<or>
          \<not> in_class NonSpace (hd (w1 @ g7 @ w2 @ tl_text e g9 rest))"
      using False w1 by (cases w1) auto
    show "match K1 (w1 @ g7 @ w2 @ tl_text e g9 rest) (advs g6 (open_grp 6 c))
          = Some (setg 9 g9 (setg 8 e (setg 7 g7 (setg 6 g6 c))))"
      by (rule K1_ok[OF c e g9(1,2) rest w1 g7 w2 canon(2)])
  qed
  then show ?thesis by (simp add: TAIL_def)
qed

subsection \<open>The start of the pattern\<close>

lemma pattern_split:
  "APACHE_ACCESS_LOG_PATTERN =
     Bol # TOK 1 @ TOK 2 @ TOK 3 @ Lit CHR ''['' # TS @
     Lit CHR '']'' # Lit CHR '' '' # Lit CHR 0x22 # TOK 5 @ TAIL"
  by (simp add: APACHE_ACCESS_LOG_PATTERN_def TOK_def TS_def TAIL_def K1_def K2_def K3_def QPAT_def)

lemma search_Bol: "search (Bol # rs) s = match rs s (init_state True)"
proof -
  have "search_from (Bol # rs) t False = None" for t
    by (induction t) (auto simp: init_state_def)
  then show ?thesis
    by (cases s) (auto simp: search_def init_state_def split: option.split)
qed

lemma init_state_simps [simp]:
  "opens (init_state b) = []" "at_start (init_state b) = b" "grps (init_state b) n = []"
  by (simp_all add: init_state_def)

lemma tok_plus:
  assumes u: "u \<noteq> []" "\<forall>x\<in>set u. \<not> is_space x"
  shows "match (Plus NonSpace # Close n # Lit CHR '' '' # rs) (u @ CHR '' '' # s) c
         = match rs s (adv CHR '' '' (close_grp n (advs u c)))"
proof -
  have "match (Plus NonSpace # Close n # Lit CHR '' '' # rs) (u @ CHR '' '' # s) c
        = match (Close n # Lit CHR '' '' # rs) (CHR '' '' # s) (advs u c)"
  proof (rule plus_det)
    show "match (Close n # Lit CHR '' '' # rs) (x # t) c' = None" if "in_class NonSpace x" for x t c'
      using that by auto
  qed (use u in auto)
  then show ?thesis by simp
qed

lemma tok_step:
  assumes c: "opens c = []" "\<not> at_start c"
    and u: "u \<noteq> []" "\<forall>x\<in>set u. \<not> is_space x"
  shows "match (TOK n @ rs) (u @ CHR '' '' # s) c = match rs s (setg n u c)"
  using tok_plus[OF u, of n rs s "open_grp n c"] c
  by (simp add: TOK_def capture adv_idle)

lemma tok_first:
  assumes u: "u \<noteq> []" "\<forall>x\<in>set u. \<not> is_space x"
  shows "match (TOK n @ rs) (u @ CHR '' '' # s) (init_state True) = match rs s (setg n u (init_state False))"
  using tok_plus[OF u, of n rs s "open_grp n (init_state True)"] u(1)
  by (simp add: TOK_def capture_first adv_idle)

lemma ts_step:
  assumes c: "opens c = []" "\<not> at_start c"
    and t: "t \<noteq> []" "\<forall>x\<in>set t. in_class TimeChar x"
    and z: "zone_ok w sg z"
  shows "match (TS @ rs) (t @ w # sg # z @ s) c = match rs s (setg 4 (t @ w # sg # z) c)"
proof -
  have "match (Plus TimeChar # One Space # One Sign # Rep 4 Digit # Close 4 # rs)
          (t @ w # sg # z @ s) (open_grp 4 c)
        = match (One Space # One Sign # Rep 4 Digit # Close 4 # rs) (w # sg # z @ s) (advs t (open_grp 4 c))"
  proof (rule plus_det)
    show "match (One Space # One Sign # Rep 4 Digit # Close 4 # rs) (x # u) c' = None"
      if "in_class TimeChar x" for x u c'
      using timechar_not_space[OF that] by simp
    show "w # sg # z @ s = [] \<or> \<not> in_class TimeChar (hd (w # sg # z @ s))"
      using z timechar_not_space[of w] by (auto simp: zone_ok_def)
  qed (use t in auto)
  also have "\<dots> = match (Rep 4 Digit # Close 4 # rs) (z @ s) (advs (t @ [w, sg]) (open_grp 4 c))"
    using z by (simp add: zone_ok_def advs_append)
  also have "\<dots> = match (Close 4 # rs) s (advs z (advs (t @ [w, sg]) (open_grp 4 c)))"
    using z by (intro rep_exact) (auto simp: zone_ok_def)
  also have "\<dots> = match rs s (setg 4 (t @ w # sg # z) c)"
    using capture[OF c, of 4 "t @ w # sg # z"] by (simp add: advs_append)
  finally show ?thesis by (simp add: TS_def)
qed

lemma head_state_simps [simp]: "opens (head_state g1 g2 g3 g4 g5) = []" "\<not> at_start (head_state g1 g2 g3 g4 g5)"
  by (simp_all add: head_state_def)

lemma head_ok:
  assumes "token g1" "token g2" "token g3" "token g5"
    and t: "t \<noteq> []" "\<forall>x\<in>set t. in_class TimeChar x" and z: "zone_ok w sg z"
  shows "search APACHE_ACCESS_LOG_PATTERN (head_text g1 g2 g3 (t @ w # sg # z) g5 @ req)
         = match TAIL req (head_state g1 g2 g3 (t @ w # sg # z) g5)"
proof -
  show ?thesis
    using assms unfolding pattern_split search_Bol head_text_def head_state_def token_def
    by (simp add: tok_first tok_step ts_step[OF _ _ t z] adv_idle)
qed

subsection \<open>What a match says about the line\<close>

lemma inv_star:
  "match (Star k # rs) s c = Some m \<Longrightarrow>
   \<exists>u t. s = u @ t \<and> (\<forall>x\<in>set u. in_class k x) \<and> match rs t (advs u c) = Some m"
proof (induction s arbitrary: c)
  case Nil
  then show ?case by (intro exI[of _ "[]"]) simp
next
  case (Cons x xs)
  show ?case
  proof (cases "in_class k x \<and> match (Star k # rs) xs (adv x c) \<noteq> None")
    case True
    then have "match (Star k # rs) xs (adv x c) = Some m"
      using Cons.prems by auto
    from Cons.IH[OF this] obtain u t where
      "xs = u @ t" "\<forall>x\<in>set u. in_class k x" "match rs t (advs u (adv x c)) = Some m" by blast
    then show ?thesis using True by (intro exI[of _ "x # u"] exI[of _ t]) simp
  next
    case False
    then have "match rs (x # xs) c = Some m"
      using Cons.prems by (auto split: if_splits)
    then show ?thesis by (intro exI[of _ "[]"] exI[of _ "x # xs"]) simp
  qed
qed

lemma inv_plus:
  assumes "match (Plus k # rs) s c = Some m"
  shows "\<exists>u t. s = u @ t \<and> u \<noteq> [] \<and> (\<forall>x\<in>set u. in_class k x) \<and> match rs t (advs u c) = Some m"
proof -
  obtain x xs where s: "s = x # xs" "in_class k x" "match (Star k # rs) xs (adv x c) = Some m"
    using assms by (cases s) (auto split: if_splits)
  from inv_star[OF s(3)] obtain u t where
    "xs = u @ t" "\<forall>x\<in>set u. in_class k x" "match rs t (advs u (adv x c)) = Some m" by blast
  then show ?thesis using s by (intro exI[of _ "x # u"] exI[of _ t]) simp
qed

lemma inv_rep:
  "match (Rep n k # rs) s c = Some m \<Longrightarrow>
   \<exists>u t. s = u @ t \<and> length u = n \<and> (\<forall>x\<in>set u. in_class k x) \<and> match rs t (advs u c) = Some m"
proof (induction n arbitrary: s c)
  case 0
  then have "match rs s c = Some m" by (cases s) auto
  then show ?case by (intro exI[of _ "[]"] exI[of _ s]) simp
next
  case (Suc n)
  then obtain x xs where s: "s = x # xs" "in_class k x" "match (Rep n k # rs) xs (adv x c) = Some m"
    by (cases s) (auto split: if_splits)
  from Suc.IH[OF s(3)] obtain u t where
    "xs = u @ t" "length u = n" "\<forall>x\<in>set u. in_class k x" "match rs t (advs u (adv x c)) = Some m"
    by blast
  then show ?case using s by (intro exI[of _ "x # u"] exI[of _ t]) simp
qed

lemma inv_lit:
  "match (Lit a # rs) s c = Some m \<Longrightarrow> \<exists>t. s = a # t \<and> match rs t (adv a c) = Some m"
  by (cases s) (auto split: if_splits)

lemma inv_one:
  "match (One k # rs) s c = Some m \<Longrightarrow> \<exists>x t. s = x # t \<and> in_class k x \<and> match rs t (adv x c) = Some m"
  by (cases s) (auto split: if_splits)

lemma inv_tok_raw:
  assumes "match (TOK n @ rs) s c = Some m"
  shows "\<exists>u t. s = u @ CHR '' '' # t \<and> token u \<and>
           match rs t (adv CHR '' '' (close_grp n (advs u (open_grp n c)))) = Some m"
proof -
  have "match (Plus NonSpace # Close n # Lit CHR '' '' # rs) s (open_grp n c) = Some m"
    using assms by (simp add: TOK_def)
  from inv_plus[OF this] obtain u t where
    u: "s = u @ t" "u \<noteq> []" "\<forall>x\<in>set u. in_class NonSpace x"
    and "match (Close n # Lit CHR '' '' # rs) t (advs u (open_grp n c)) = Some m" by blast
  then have "match (Lit CHR '' '' # rs) t (close_grp n (advs u (open_grp n c))) = Some m" by simp
  from inv_lit[OF this] obtain t' where
    "t = CHR '' '' # t'" "match rs t' (adv CHR '' '' (close_grp n (advs u (open_grp n c)))) = Some m"
    by blast
  then show ?thesis using u by (intro exI[of _ u] exI[of _ t']) (simp add: token_def)
qed

lemma inv_tok:
  assumes c: "opens c = []" "\<not> at_start c" and m: "match (TOK n @ rs) s c = Some m"
  shows "\<exists>u t. s = u @ CHR '' '' # t \<and> token u \<and> match rs t (setg n u c) = Some m"
  using inv_tok_raw[OF m] c by (simp add: capture adv_idle)

lemma inv_tok_first:
  assumes m: "match (TOK n @ rs) s (init_state True) = Some m"
  shows "\<exists>u t. s = u @ CHR '' '' # t \<and> token u \<and> match rs t (setg n u (init_state False)) = Some m"
proof -
  from inv_tok_raw[OF m] obtain u t where
    u: "s = u @ CHR '' '' # t" "token u"
    "match rs t (adv CHR '' '' (close_grp n (advs u (open_grp n (init_state True))))) = Some m"
    by blast
  then have "match rs t (setg n u (init_state False)) = Some m"
    by (simp add: capture_first adv_idle token_def)
  then show ?thesis using u by blast
qed

lemma inv_ts:
  assumes c: "opens c = []" "\<not> at_start c" and m: "match (TS @ rs) s c = Some m"
  shows "\<exists>t w sg z r. s = t @ w # sg # z @ r \<and> t \<noteq> [] \<and> (\<forall>x\<in>set t. in_class TimeChar x) \<and>
           zone_ok w sg z \<and> match rs r (setg 4 (t @ w # sg # z) c) = Some m"
proof -
  have "match (Plus TimeChar # One Space # One Sign # Rep 4 Digit # Close 4 # rs) s (open_grp 4 c) = Some m"
    using m by (simp add: TS_def)
  from inv_plus[OF this] obtain t s1 where
    t: "s = t @ s1" "t \<noteq> []" "\<forall>x\<in>set t. in_class TimeChar x"
    and "match (One Space # One Sign # Rep 4 Digit # Close 4 # rs) s1 (advs t (open_grp 4 c)) = Some m"
    by blast
  from inv_one[OF this(4)] obtain w s2 where
    w: "s1 = w # s2" "in_class Space w"
    and "match (One Sign # Rep 4 Digit # Close 4 # rs) s2 (adv w (advs t (open_grp 4 c))) = Some m"
    by blast
  from inv_one[OF this(3)] obtain sg s3 where
    sg: "s2 = sg # s3" "in_class Sign sg"
    and "match (Rep 4 Digit # Close 4 # rs) s3 (adv sg (adv w (advs t (open_grp 4 c)))) = Some m"
    by blast
  from inv_rep[OF this(3)] obtain z r where
    z: "s3 = z @ r" "length z = 4" "\<forall>x\<in>set z. in_class Digit x"
    and "match (Close 4 # rs) r (advs z (adv sg (adv w (advs t (open_grp 4 c))))) = Some m"
    by blast
  then have "match rs r (close_grp 4 (advs (t @ w # sg # z) (open_grp 4 c))) = Some m"
    by (simp add: advs_append)
  then have "match rs r (setg 4 (t @ w # sg # z) c) = Some m"
    using c by (simp add: capture)
  then show ?thesis
    using t w sg z
    by (intro exI[of _ t] exI[of _ w] exI[of _ sg] exI[of _ z] exI[of _ r]) (simp add: zone_ok_def)
qed

lemma inv_TAIL:
  assumes c: "opens c = []" "\<not> at_start c" and m: "match TAIL s c = Some m"
  shows "\<exists>g6 w1 g7 w2 e g9 rest. s = g6 @ w1 @ g7 @ w2 @ tl_text e g9 rest \<and> token g6 \<and>
           (\<forall>x\<in>set w1. is_space x) \<and> (\<forall>x\<in>set g7. \<not> is_space x) \<and> (\<forall>x\<in>set w2. is_space x) \<and>
           length e = 3 \<and> (\<forall>x\<in>set e. is_digit x) \<and> token g9 \<and>
           m = setg 9 g9 (setg 8 e (setg 7 g7 (setg 6 g6 c)))"
proof -
  have "match (Plus NonSpace # K1) s (open_grp 6 c) = Some m"
    using m by (simp add: TAIL_def)
  from inv_plus[OF this] obtain g6 s1 where
    g6: "s = g6 @ s1" "g6 \<noteq> []" "\<forall>x\<in>set g6. in_class NonSpace x"
    and "match K1 s1 (advs g6 (open_grp 6 c)) = Some m" by blast
  then have "match (Star Space # Open 7 # K2) s1 (setg 6 g6 c) = Some m"
    using c by (simp add: K1_def capture)
  from inv_star[OF this] obtain w1 s2 where
    w1: "s1 = w1 @ s2" "\<forall>x\<in>set w1. in_class Space x"
    and "match (Open 7 # K2) s2 (advs w1 (setg 6 g6 c)) = Some m" by blast
  then have "match (Star NonSpace # Close 7 # K3) s2 (open_grp 7 (setg 6 g6 c)) = Some m"
    using c by (simp add: advs_idle K2_def)
  from inv_star[OF this] obtain g7 s3 where
    g7: "s2 = g7 @ s3" "\<forall>x\<in>set g7. in_class NonSpace x"
    and "match (Close 7 # K3) s3 (advs g7 (open_grp 7 (setg 6 g6 c))) = Some m" by blast
  then have "match (Star Space # QPAT) s3 (setg 7 g7 (setg 6 g6 c)) = Some m"
    using c by (simp add: capture K3_def)
  from inv_star[OF this] obtain w2 s4 where
    w2: "s3 = w2 @ s4" "\<forall>x\<in>set w2. in_class Space x"
    and "match QPAT s4 (advs w2 (setg 7 g7 (setg 6 g6 c))) = Some m" by blast
  then have q: "match QPAT s4 (setg 7 g7 (setg 6 g6 c)) = Some m"
    using c by (simp add: advs_idle)
  let ?c7 = "setg 7 g7 (setg 6 g6 c)"
  have "match (Lit CHR 0x22 # Lit CHR '' '' # Open 8 # Rep 3 Digit # Close 8 # Lit CHR '' '' #
          Open 9 # Plus NonSpace # [Close 9]) s4 ?c7 = Some m"
    using q by (simp add: QPAT_def)
  from inv_lit[OF this] obtain s4' where s4': "s4 = CHR 0x22 # s4'"
    and "match (Lit CHR '' '' # Open 8 # Rep 3 Digit # Close 8 # Lit CHR '' '' #
          Open 9 # Plus NonSpace # [Close 9]) s4' (adv CHR 0x22 ?c7) = Some m" by blast
  from inv_lit[OF this(2)] obtain s5 where s5': "s4' = CHR '' '' # s5"
    and "match (Open 8 # Rep 3 Digit # Close 8 # Lit CHR '' '' #
          Open 9 # Plus NonSpace # [Close 9]) s5 (adv CHR '' '' (adv CHR 0x22 ?c7)) = Some m" by blast
  then have s5: "s4 = CHR 0x22 # CHR '' '' # s5"
    and "match (Rep 3 Digit # Close 8 # Lit CHR '' '' # Open 9 # Plus NonSpace # [Close 9]) s5 (open_grp 8 ?c7) = Some m"
    using c s4' by (simp_all add: adv_idle)
  from inv_rep[OF this(2)] obtain e s6 where
    e: "s5 = e @ s6" "length e = 3" "\<forall>x\<in>set e. in_class Digit x"
    and "match (Close 8 # Lit CHR '' '' # Open 9 # Plus NonSpace # [Close 9]) s6 (advs e (open_grp 8 ?c7)) = Some m"
    by blast
  then have "match (Lit CHR '' '' # Open 9 # Plus NonSpace # [Close 9]) s6 (setg 8 e ?c7) = Some m"
    using c by (simp add: capture)
  from inv_lit[OF this] obtain s7 where s7: "s6 = CHR '' '' # s7"
    and "match (Open 9 # Plus NonSpace # [Close 9]) s7 (adv CHR '' '' (setg 8 e ?c7)) = Some m" by blast
  then have "match (Plus NonSpace # [Close 9]) s7 (open_grp 9 (setg 8 e ?c7)) = Some m"
    using c by (simp add: adv_idle)
  from inv_plus[OF this] obtain g9 rest where
    g9: "s7 = g9 @ rest" "g9 \<noteq> []" "\<forall>x\<in>set g9. in_class NonSpace x"
    and "match [Close 9] rest (advs g9 (open_grp 9 (setg 8 e ?c7))) = Some m" by blast
  then have "m = setg 9 g9 (setg 8 e ?c7)"
    using c by (simp add: capture)
  moreover have "s = g6 @ w1 @ g7 @ w2 @ tl_text e g9 rest"
    unfolding tl_text_def g6(1) w1(1) g7(1) w2(1) s5 e(1) s7 g9(1) by simp
  moreover have "token g6" "token g9"
    using g6(2,3) g9(2,3) by (simp_all add: token_def)
  moreover have "\<forall>x\<in>set w1. is_space x" "\<forall>x\<in>set g7. \<not> is_space x"
    "\<forall>x\<in>set w2. is_space x" "\<forall>x\<in>set e. is_digit x"
    using w1(2) g7(2) w2(2) e(3) by simp_all
  ultimately show ?thesis
    using e(2) by blast
qed

lemma text_of_eq:
  "text_of p = head_text (p_host p) (p_ident p) (p_user p) (p_time p @ p_ws p # p_sign p # p_zone p) (p_method p) @
     (p_endpoint p @ p_sep p @ p_protocol p @ p_trail p @ tl_text (p_status p) (p_size p) (p_rest p))"
  by (simp add: text_of_def head_text_def tl_text_def timestamp_def)

subsection \<open>Lines assembled from fields\<close>

lemma group_state_of:
  "group_of (state_of p) 1 = p_host p" "group_of (state_of p) 2 = p_ident p"
  "group_of (state_of p) 3 = p_user p" "group_of (state_of p) 4 = timestamp p"
  "group_of (state_of p) 5 = p_method p" "group_of (state_of p) 6 = p_endpoint p"
  "group_of (state_of p) 7 = p_protocol p" "group_of (state_of p) 8 = p_status p"
  "group_of (state_of p) 9 = p_size p"
  by (simp_all add: group_of_def state_of_def head_state_def)

lemma search_ok:
  assumes "wf_parts p" "canon p" "hd (p_size p) \<noteq> CHR 0x22" "p_rest p = [] \<or> is_space (hd (p_rest p))"
  shows "search APACHE_ACCESS_LOG_PATTERN (text_of p) = Some (state_of p)"
proof -
  have "search APACHE_ACCESS_LOG_PATTERN (text_of p)
        = match TAIL (p_endpoint p @ p_sep p @ p_protocol p @ p_trail p @
            tl_text (p_status p) (p_size p) (p_rest p))
            (head_state (p_host p) (p_ident p) (p_user p) (p_time p @ p_ws p # p_sign p # p_zone p) (p_method p))"
    unfolding text_of_eq using assms(1) by (intro head_ok) (simp_all add: wf_parts_def)
  also have "\<dots> = Some (state_of p)"
    unfolding state_of_def timestamp_def using assms
    by (subst TAIL_ok) (simp_all add: wf_parts_def canon_def token_def)
  finally show ?thesis .
qed

lemma search_inv:
  assumes "search APACHE_ACCESS_LOG_PATTERN line = Some m"
  shows "\<exists>p. wf_parts p \<and> line = text_of p \<and> m = state_of p"
proof -
  let ?c0 = "init_state False"
  have "match (TOK 1 @ TOK 2 @ TOK 3 @ Lit CHR ''['' # TS @
     Lit CHR '']'' # Lit CHR '' '' # Lit CHR 0x22 # TOK 5 @ TAIL) line (init_state True) = Some m"
    using assms by (simp add: pattern_split search_Bol)
  from inv_tok_first[OF this] obtain g1 s1 where g1: "line = g1 @ CHR '' '' # s1" "token g1"
    and m1: "match (TOK 2 @ TOK 3 @ Lit CHR ''['' # TS @
     Lit CHR '']'' # Lit CHR '' '' # Lit CHR 0x22 # TOK 5 @ TAIL) s1 (setg 1 g1 ?c0) = Some m" by blast
  from inv_tok[OF _ _ m1] obtain g2 s2 where g2: "s1 = g2 @ CHR '' '' # s2" "token g2"
    and m2: "match (TOK 3 @ Lit CHR ''['' # TS @
     Lit CHR '']'' # Lit CHR '' '' # Lit CHR 0x22 # TOK 5 @ TAIL) s2 (setg 2 g2 (setg 1 g1 ?c0)) = Some m"
    by auto
  let ?c3 = "\<lambda>g3. setg 3 g3 (setg 2 g2 (setg 1 g1 ?c0))"
  from inv_tok[OF _ _ m2] obtain g3 s3 where g3: "s2 = g3 @ CHR '' '' # s3" "token g3"
    and m3: "match (Lit CHR ''['' # TS @
     Lit CHR '']'' # Lit CHR '' '' # Lit CHR 0x22 # TOK 5 @ TAIL) s3 (?c3 g3) = Some m"
    by auto
  from inv_lit[OF m3] obtain s4 where s4: "s3 = CHR ''['' # s4"
    and m4: "match (TS @ Lit CHR '']'' # Lit CHR '' '' # Lit CHR 0x22 # TOK 5 @ TAIL) s4 (?c3 g3) = Some m"
    by (auto simp: adv_idle)
  from inv_ts[OF _ _ m4] obtain t w sg z s5 where
    ts: "s4 = t @ w # sg # z @ s5" "t \<noteq> []" "\<forall>x\<in>set t. in_class TimeChar x" "zone_ok w sg z"
    and m5: "match (Lit CHR '']'' # Lit CHR '' '' # Lit CHR 0x22 # TOK 5 @ TAIL) s5
          (setg 4 (t @ w # sg # z) (?c3 g3)) = Some m"
    by auto
  let ?c4 = "setg 4 (t @ w # sg # z) (?c3 g3)"
  from m5 obtain s6 where s6: "s5 = CHR '']'' # CHR '' '' # CHR 0x22 # s6"
    and m6: "match (TOK 5 @ TAIL) s6 ?c4 = Some m"
    by (auto dest!: inv_lit simp: adv_idle)
  from inv_tok[OF _ _ m6] obtain g5 s7 where g5: "s6 = g5 @ CHR '' '' # s7" "token g5"
    and m7: "match TAIL s7 (setg 5 g5 ?c4) = Some m"
    by auto
  from inv_TAIL[OF _ _ m7] obtain g6 w1 g7 w2 e g9 rest where
    tail: "s7 = g6 @ w1 @ g7 @ w2 @ tl_text e g9 rest" "token g6"
      "\<forall>x\<in>set w1. is_space x" "\<forall>x\<in>set g7. \<not> is_space x" "\<forall>x\<in>set w2. is_space x"
      "length e = 3" "\<forall>x\<in>set e. is_digit x" "token g9"
      "m = setg 9 g9 (setg 8 e (setg 7 g7 (setg 6 g6 (setg 5 g5 ?c4))))"
    by auto
  let ?p = "\<lparr>p_host = g1, p_ident = g2, p_user = g3, p_time = t, p_ws = w, p_sign = sg, p_zone = z,
    p_method = g5, p_endpoint = g6, p_sep = w1, p_protocol = g7, p_trail = w2, p_status = e,
    p_size = g9, p_rest = rest\<rparr>"
  have "wf_parts ?p" using g1 g2 g3 ts g5 tail by (simp add: wf_parts_def)
  moreover have "line = text_of ?p"
    using g1 g2 g3 s4 ts s6 g5 tail by (simp add: text_of_def tl_text_def timestamp_def)
  moreover have "m = state_of ?p"
    using tail by (simp add: state_of_def head_state_def timestamp_def)
  ultimately show ?thesis by blast
qed

section \<open>Properties of the conversions\<close>

lemma is_digit_not_uspace: "is_digit x \<Longrightarrow> \<not> is_uspace x"
  by (auto simp: is_digit_def is_uspace_def Let_def)

lemma digit_val_range: "is_digit x \<Longrightarrow> 0 \<le> digit_val x \<and> digit_val x \<le> 9"
  by (auto simp: is_digit_def digit_val_def Let_def)

lemma foldl_decimal_lower:
  "\<forall>x\<in>set ds. is_digit x \<Longrightarrow> 0 \<le> a \<Longrightarrow> 0 \<le> foldl (\<lambda>a c. 10 * a + digit_val c) a ds"
proof (induction ds arbitrary: a)
  case Nil
  then show ?case by simp
next
  case (Cons x ds)
  have "0 \<le> 10 * a + digit_val x"
    using Cons.prems digit_val_range[of x] by simp
  then show ?case using Cons by simp
qed

lemma foldl_decimal_upper:
  "\<forall>x\<in>set ds. is_digit x \<Longrightarrow>
   foldl (\<lambda>a c. 10 * a + digit_val c) a ds < (a + 1) * 10 ^ length ds"
proof (induction ds arbitrary: a)
  case Nil
  then show ?case by simp
next
  case (Cons x ds)
  have "foldl (\<lambda>a c. 10 * a + digit_val c) (10 * a + digit_val x) ds
        < (10 * a + digit_val x + 1) * 10 ^ length ds"
    using Cons by simp
  also have "\<dots> \<le> (10 * a + 10) * 10 ^ length ds"
    using Cons.prems digit_val_range[of x] by (intro mult_right_mono) auto
  finally show ?case by (simp add: algebra_simps)
qed

lemma decimal_nonneg: "\<forall>x\<in>set ds. is_digit x \<Longrightarrow> 0 \<le> decimal ds"
  by (simp add: decimal_def foldl_decimal_lower)

lemma decimal_less: "\<forall>x\<in>set ds. is_digit x \<Longrightarrow> decimal ds < 10 ^ length ds"
  using foldl_decimal_upper[of ds 0] by (simp add: decimal_def)

lemma py_number_digits:
  assumes "ds \<noteq> []" "\<forall>x\<in>set ds. is_digit x"
  shows "py_number b ds = Inr (decimal ds)"
proof -
  obtain x xs where ds: "ds = x # xs" using assms(1) by (cases ds) auto
  have x: "is_digit x" using assms(2) ds by simp
  have 1: "dropWhile is_uspace ds = ds"
    using x ds by (simp add: is_digit_not_uspace)
  have 2: "hd ds \<noteq> CHR ''-''" "hd ds \<noteq> CHR ''+''"
    using x ds by (auto simp: is_digit_def)
  have 3: "takeWhile is_digit ds = ds" "dropWhile is_digit ds = []"
    using assms(2) by auto
  show ?thesis
    using assms(1) by (simp add: py_number_def Let_def 1 2 3)
qed

lemma py_number_nonneg:
  assumes "py_number b s = Inr v" "CHR ''-'' \<notin> set s"
  shows "0 \<le> v"
proof -
  define s1 where "s1 = dropWhile is_uspace s"
  define s3 where "s3 = dropWhile is_uspace
      (if s1 \<noteq> [] \<and> (hd s1 = CHR ''-'' \<or> hd s1 = CHR ''+'') then tl s1 else s1)"
  have "s1 \<noteq> [] \<Longrightarrow> hd s1 \<in> set s"
    unfolding s1_def using hd_in_set[of "dropWhile is_uspace s"] set_dropWhileD[of _ is_uspace s]
    by blast
  then have neg: "\<not> (s1 \<noteq> [] \<and> hd s1 = CHR ''-'')"
    using assms(2) by metis
  have "py_number b s = Inr v \<Longrightarrow> v = (if s1 \<noteq> [] \<and> hd s1 = CHR ''-''
      then - decimal (takeWhile is_digit s3) else decimal (takeWhile is_digit s3))"
    unfolding py_number_def Let_def s1_def[symmetric] s3_def[symmetric]
    by (auto split: if_splits)
  then have "v = decimal (takeWhile is_digit s3)"
    using assms(1) neg by simp
  then show ?thesis
    using decimal_nonneg[of "takeWhile is_digit s3"] takeWhile_all[of is_digit s3] by simp
qed

lemma py_number_hd:
  assumes "py_number b s = Inr v"
  shows "s \<noteq> [] \<and> hd s \<noteq> CHR 0x22"
proof (rule ccontr)
  assume "\<not> (s \<noteq> [] \<and> hd s \<noteq> CHR 0x22)"
  then consider "s = []" | t where "s = CHR 0x22 # t" by (cases s) auto
  then show False
  proof cases
    case 1
    then show ?thesis using assms by (simp add: py_number_def)
  next
    case 2
    then show ?thesis using assms
      by (simp add: py_number_def Let_def is_uspace_def is_digit_def)
  qed
qed

section \<open>Properties of the parser\<close>

lemma parse_Parsed:
  assumes "parseApacheLogLine line = Inr (Parsed r)"
  shows "\<exists>m sz dt code. search APACHE_ACCESS_LOG_PATTERN line = Some m \<and>
           (if group_of m 9 = ''-'' then Inr 0 else py_long (group_of m 9)) = Inr sz \<and>
           parse_apache_time (group_of m 4) = Inr dt \<and> py_int (group_of m 8) = Inr code \<and>
           r = \<lparr>host = group_of m 1, client_identd = group_of m 2, user_id = group_of m 3, date_time = dt,
                http_method = group_of m 5, endpoint = group_of m 6, protocol = group_of m 7,
                response_code = code, content_size = sz\<rparr>"
proof (cases "search APACHE_ACCESS_LOG_PATTERN line")
  case None
  then show ?thesis using assms by (simp add: parseApacheLogLine_def)
next
  case (Some m)
  let ?sz = "if group_of m 9 = ''-'' then Inr 0 else py_long (group_of m 9)"
  have eq: "bind_exn ?sz (\<lambda>size.
           bind_exn (parse_apache_time (group_of m 4)) (\<lambda>dt.
           bind_exn (py_int (group_of m 8)) (\<lambda>code.
             Inr (Parsed \<lparr>host = group_of m 1, client_identd = group_of m 2, user_id = group_of m 3,
                          date_time = dt, http_method = group_of m 5, endpoint = group_of m 6,
                          protocol = group_of m 7, response_code = code, content_size = size\<rparr>))))
        = Inr (Parsed r)"
    using assms Some by (simp add: parseApacheLogLine_def Let_def)
  obtain sz where sz: "?sz = Inr sz"
    using eq by (cases ?sz) (simp_all add: bind_exn_def)
  obtain dt where dt: "parse_apache_time (group_of m 4) = Inr dt"
    using eq sz by (cases "parse_apache_time (group_of m 4)") (simp_all add: bind_exn_def)
  obtain code where code: "py_int (group_of m 8) = Inr code"
    using eq sz dt by (cases "py_int (group_of m 8)") (simp_all add: bind_exn_def)
  have "r = \<lparr>host = group_of m 1, client_identd = group_of m 2, user_id = group_of m 3, date_time = dt,
                http_method = group_of m 5, endpoint = group_of m 6, protocol = group_of m 7,
                response_code = code, content_size = sz\<rparr>"
    using eq sz dt code by (simp add: bind_exn_def)
  then show ?thesis using Some sz dt code by blast
qed

lemma parse_of_search:
  "search APACHE_ACCESS_LOG_PATTERN l1 = search APACHE_ACCESS_LOG_PATTERN l2 \<Longrightarrow>
   search APACHE_ACCESS_LOG_PATTERN l2 \<noteq> None \<Longrightarrow>
   parseApacheLogLine l1 = parseApacheLogLine l2"
  by (auto simp: parseApacheLogLine_def)

lemma canonical_parts:
  assumes "wf_parts p"
  shows "\<exists>q. wf_parts q \<and> canon q \<and> text_of q = text_of p \<and> hd (p_size q) = hd (p_size p) \<and>
             (p_rest q = [] \<or> is_space (hd (p_rest q)))"
proof -
  define g9 where "g9 = p_size p @ takeWhile (\<lambda>x. \<not> is_space x) (p_rest p)"
  define rest where "rest = dropWhile (\<lambda>x. \<not> is_space x) (p_rest p)"
  have g9: "token g9" "hd g9 = hd (p_size p)" "g9 @ rest = p_size p @ p_rest p"
    using assms takeWhile_all[of "\<lambda>x. \<not> is_space x" "p_rest p"]
    by (auto simp: g9_def rest_def wf_parts_def token_def)
  have rest: "rest = [] \<or> is_space (hd rest)"
    using dropWhile_stop[of "\<lambda>x. \<not> is_space x" "p_rest p"] by (simp add: rest_def)
  define e w1 g7 w2 where "e = (if p_sep p = [] then p_endpoint p @ p_protocol p else p_endpoint p)"
    and "w1 = (if p_sep p = [] then p_trail p else if p_protocol p = [] then p_sep p @ p_trail p else p_sep p)"
    and "g7 = (if p_sep p = [] then [] else p_protocol p)"
    and "w2 = (if p_sep p = [] \<or> p_protocol p = [] then [] else p_trail p)"
  define q where "q = p\<lparr>p_endpoint := e, p_sep := w1, p_protocol := g7, p_trail := w2,
     p_size := g9, p_rest := rest\<rparr>"
  have mid: "e @ w1 @ g7 @ w2 = p_endpoint p @ p_sep p @ p_protocol p @ p_trail p"
    by (simp add: e_def w1_def g7_def w2_def)
  have "wf_parts q"
    using assms g9(1) by (auto simp: wf_parts_def q_def e_def w1_def g7_def w2_def token_def)
  moreover have "canon q"
    by (auto simp: canon_def q_def e_def w1_def g7_def w2_def)
  moreover have "text_of q = text_of p"
  proof -
    have "text_of q = head_text (p_host p) (p_ident p) (p_user p) (p_time p @ p_ws p # p_sign p # p_zone p) (p_method p) @
       ((e @ w1 @ g7 @ w2) @ CHR 0x22 # CHR '' '' # p_status p @ CHR '' '' # (g9 @ rest))"
      by (simp add: text_of_eq q_def tl_text_def)
    also have "\<dots> = text_of p"
      unfolding mid g9(3) by (simp add: text_of_eq tl_text_def)
    finally show ?thesis .
  qed
  moreover have "hd (p_size q) = hd (p_size p)" "p_rest q = [] \<or> is_space (hd (p_rest q))"
    using g9(2) rest by (simp_all add: q_def)
  ultimately show ?thesis by blast
qed

lemma search_extend:
  assumes m: "search APACHE_ACCESS_LOG_PATTERN line = Some m" and h: "hd (group_of m 9) \<noteq> CHR 0x22"
  shows "search APACHE_ACCESS_LOG_PATTERN (line @ CHR '' '' # extra) = Some m"
proof -
  from search_inv[OF m] obtain p where p: "wf_parts p" "line = text_of p" "m = state_of p" by blast
  from canonical_parts[OF p(1)] obtain q where
    q: "wf_parts q" "canon q" "text_of q = text_of p" "hd (p_size q) = hd (p_size p)"
       "p_rest q = [] \<or> is_space (hd (p_rest q))" by blast
  have hq: "hd (p_size q) \<noteq> CHR 0x22"
    using h p(3) q(4) by (simp add: group_state_of)
  have "search APACHE_ACCESS_LOG_PATTERN (text_of q) = Some (state_of q)"
    by (rule search_ok[OF q(1,2) hq q(5)])
  then have mq: "m = state_of q" using m p(2) q(3) by simp
  define q' where "q' = q\<lparr>p_rest := p_rest q @ CHR '' '' # extra\<rparr>"
  have "wf_parts q'" "canon q'" "hd (p_size q') \<noteq> CHR 0x22"
    using q(1,2) hq by (simp_all add: q'_def wf_parts_def canon_def)
  moreover have "p_rest q' = [] \<or> is_space (hd (p_rest q'))"
    using q(5) by (cases "p_rest q") (auto simp: q'_def)
  ultimately have "search APACHE_ACCESS_LOG_PATTERN (text_of q') = Some (state_of q')"
    by (rule search_ok)
  moreover have "text_of q' = line @ CHR '' '' # extra"
    using p(2) q(3) by (simp add: q'_def text_of_def timestamp_def)
  moreover have "state_of q' = state_of q"
    by (simp add: q'_def state_of_def timestamp_def)
  ultimately show ?thesis using mq by simp
qed

lemmas eval_match = search_def init_state_def adv_def open_grp_def close_grp_def
  APACHE_ACCESS_LOG_PATTERN_def is_space_def is_digit_def is_word_def group_of_def Let_def

lemmas eval_parse = parseApacheLogLine_def bind_exn_def py_long_def py_int_def py_number_def
  is_uspace_def parse_apache_time_def slice_def month_map_def lookup_def mk_datetime_def
  days_in_month_def is_leap_def decimal_def digit_val_def

text \<open>
Claim C1. The parser is meant to return a row or the rejected line for every input and never to raise. It does not: this line matches the pattern, its size field is neither a number nor a dash, and the conversion of the size raises ValueError.
\<close>

theorem parser_raises:
  \<open>parseApacheLogLine ''127.0.0.1 - - [01/Aug/1995:00:00:01 -0400] "GET /index.html HTTP/1.0" 200 abc''
     = Inl ValueError\<close>
  by (simp add: eval_match eval_parse)

text \<open>
The same happens in the timestamp: a month that is not in the table is a KeyError.
\<close>

theorem parser_raises_timestamp:
  \<open>parseApacheLogLine ''127.0.0.1 - - [01/Foo/1995:00:00:01 -0400] "GET /index.html HTTP/1.0" 200 1839''
     = Inl KeyError\<close>
  by (simp add: eval_match eval_parse)

lemma length_map_exn: "map_exn f xs = Inr ys \<Longrightarrow> length ys = length xs"
proof (induction xs arbitrary: ys)
  case Nil
  then show ?case by simp
next
  case (Cons x xs)
  then show ?case
    by (cases "f x"; cases "map_exn f xs") (auto simp: bind_exn_def)
qed

lemma rows_lines_count: "length (rows_of ps) + length (lines_of ps) = length ps"
proof (induction ps)
  case Nil
  then show ?case by (simp add: rows_of_def lines_of_def)
next
  case (Cons p ps)
  then show ?case by (cases p) (simp_all add: rows_of_def lines_of_def)
qed

text \<open>
When parsing returns, every line gave one result, and rows and rejected lines together are as many as the lines.
\<close>

lemma parseLogs_counts:
  assumes "parseLogs file = Inr (parsed_logs, access_logs, failed_logs)"
  shows "length parsed_logs = length file \<and> length access_logs + length failed_logs = length file"
proof -
  obtain ps where ps: "map_exn parseApacheLogLine file = Inr ps"
    using assms by (cases "map_exn parseApacheLogLine file") (simp_all add: parseLogs_def bind_exn_def)
  then have "parsed_logs = ps" "access_logs = rows_of ps" "failed_logs = lines_of ps"
    using assms by (auto simp: parseLogs_def bind_exn_def Let_def)
  then show ?thesis using length_map_exn[OF ps] rows_lines_count[of ps] by simp
qed

text \<open>
Claim C2. Every line is meant to yield exactly one row or one rejected line, so that the counts add up to the number of lines. On a file holding the line above no count is produced: the exception of the parser ends the job. (When the job does return, the counts add up: see \<open>parseLogs_counts\<close>.)
\<close>

theorem parseLogs_raises:
  \<open>parseLogs [''127.0.0.1 - - [01/Aug/1995:00:00:01 -0400] "GET /index.html HTTP/1.0" 200 abc'']
     = Inl ValueError\<close>
  by (simp add: parseLogs_def eval_match eval_parse)

text \<open>
Claim C3, as stated, fails: the size field is any run of non-space characters, and a field holding a negative number gives a negative content size.
\<close>

theorem content_size_negative:
  \<open>parseApacheLogLine ''127.0.0.1 - - [01/Aug/1995:00:00:01 -0400] "GET /index.html HTTP/1.0" 200 -5''
     = Inr (Parsed \<lparr>host = ''127.0.0.1'', client_identd = ''-'', user_id = ''-'',
          date_time = \<lparr>year = 1995, month = 8, day = 1, hour = 0, minute = 0, second = 1\<rparr>,
          http_method = ''GET'', endpoint = ''/index.html'', protocol = ''HTTP/1.0'',
          response_code = 200, content_size = - 5\<rparr>)\<close>
  by (simp add: eval_match eval_parse)

text \<open>
Claim C3, amended. For every row the parser returns: a size field that is a dash gives content size 0; any other size field gives its value as \<^verbatim>\<open>long\<close> reads it; and a size field without a minus sign gives a content size that is not negative.
\<close>

theorem content_size_by_field:
  assumes "parseApacheLogLine line = Inr (Parsed r)" and "size_field line = Some f"
  shows "(f = ''-'' \<longrightarrow> content_size r = 0) \<and>
         (f \<noteq> ''-'' \<longrightarrow> py_long f = Inr (content_size r)) \<and>
         (CHR ''-'' \<notin> set f \<longrightarrow> 0 \<le> content_size r)"
proof -
  from parse_Parsed[OF assms(1)] obtain m sz where
    m: "search APACHE_ACCESS_LOG_PATTERN line = Some m"
    and sz: "(if group_of m 9 = ''-'' then Inr 0 else py_long (group_of m 9)) = Inr sz"
    and r: "content_size r = sz" by auto
  have f: "f = group_of m 9" using assms(2) m by (simp add: size_field_def)
  have "CHR ''-'' \<notin> set f \<Longrightarrow> 0 \<le> sz"
    using sz f py_number_nonneg[of True f sz] by (auto simp: py_long_def split: if_splits)
  then show ?thesis using sz f r by (auto split: if_splits)
qed

text \<open>
The amended claim C3 at two lines, one with a dash and one with a number as size.
\<close>

theorem content_size_by_field_witness:
  \<open>(let line = ''127.0.0.1 - - [01/Aug/1995:00:00:01 -0400] "GET /index.html HTTP/1.0" 304 -'';
        r = \<lparr>host = ''127.0.0.1'', client_identd = ''-'', user_id = ''-'',
          date_time = \<lparr>year = 1995, month = 8, day = 1, hour = 0, minute = 0, second = 1\<rparr>,
          http_method = ''GET'', endpoint = ''/index.html'', protocol = ''HTTP/1.0'',
          response_code = 304, content_size = 0\<rparr>
    in parseApacheLogLine line = Inr (Parsed r) \<and> size_field line = Some ''-'' \<and> content_size r = 0) \<and>
   (let line = ''127.0.0.1 - - [01/Aug/1995:00:00:01 -0400] "GET /index.html HTTP/1.0" 200 1839'';
        r = \<lparr>host = ''127.0.0.1'', client_identd = ''-'', user_id = ''-'',
          date_time = \<lparr>year = 1995, month = 8, day = 1, hour = 0, minute = 0, second = 1\<rparr>,
          http_method = ''GET'', endpoint = ''/index.html'', protocol = ''HTTP/1.0'',
          response_code = 200, content_size = 1839\<rparr>
    in parseApacheLogLine line = Inr (Parsed r) \<and> size_field line = Some ''1839'' \<and>
       CHR ''-'' \<notin> set ''1839'' \<and> py_long ''1839'' = Inr (content_size r) \<and> 0 \<le> content_size r)\<close>
proof -
  let ?l1 = \<open>''127.0.0.1 - - [01/Aug/1995:00:00:01 -0400] "GET /index.html HTTP/1.0" 304 -''\<close>
  let ?r1 = "\<lparr>host = ''127.0.0.1'', client_identd = ''-'', user_id = ''-'',
          date_time = \<lparr>year = 1995, month = 8, day = 1, hour = 0, minute = 0, second = 1\<rparr>,
          http_method = ''GET'', endpoint = ''/index.html'', protocol = ''HTTP/1.0'',
          response_code = 304, content_size = 0\<rparr>"
  let ?l2 = \<open>''127.0.0.1 - - [01/Aug/1995:00:00:01 -0400] "GET /index.html HTTP/1.0" 200 1839''\<close>
  let ?r2 = "\<lparr>host = ''127.0.0.1'', client_identd = ''-'', user_id = ''-'',
          date_time = \<lparr>year = 1995, month = 8, day = 1, hour = 0, minute = 0, second = 1\<rparr>,
          http_method = ''GET'', endpoint = ''/index.html'', protocol = ''HTTP/1.0'',
          response_code = 200, content_size = 1839\<rparr>"
  have p1: "parseApacheLogLine ?l1 = Inr (Parsed ?r1)"
    by (simp add: eval_match eval_parse)
  have f1: "size_field ?l1 = Some ''-''"
    by (simp add: size_field_def eval_match)
  have p2: "parseApacheLogLine ?l2 = Inr (Parsed ?r2)"
    by (simp add: eval_match eval_parse)
  have f2: "size_field ?l2 = Some ''1839''"
    by (simp add: size_field_def eval_match)
  show ?thesis
    using content_size_by_field[OF p1 f1] content_size_by_field[OF p2 f2] p1 f1 p2 f2
    by (simp add: Let_def)
qed

text \<open>
Claim C4, as stated, fails: the status is any three digits, and 999 is accepted.
\<close>

theorem response_code_999:
  \<open>parseApacheLogLine ''127.0.0.1 - - [01/Aug/1995:00:00:01 -0400] "GET /index.html HTTP/1.0" 999 1839''
     = Inr (Parsed \<lparr>host = ''127.0.0.1'', client_identd = ''-'', user_id = ''-'',
          date_time = \<lparr>year = 1995, month = 8, day = 1, hour = 0, minute = 0, second = 1\<rparr>,
          http_method = ''GET'', endpoint = ''/index.html'', protocol = ''HTTP/1.0'',
          response_code = 999, content_size = 1839\<rparr>)\<close>
  by (simp add: eval_match eval_parse)

text \<open>
Claim C4, amended. The response code of every row the parser returns is between 0 and 999.
\<close>

theorem response_code_three_digits:
  assumes "parseApacheLogLine line = Inr (Parsed r)"
  shows "0 \<le> response_code r \<and> response_code r \<le> 999"
proof -
  from parse_Parsed[OF assms] obtain m code where
    m: "search APACHE_ACCESS_LOG_PATTERN line = Some m"
    and code: "py_int (group_of m 8) = Inr code" and r: "response_code r = code" by auto
  from search_inv[OF m] obtain p where p: "wf_parts p" "m = state_of p" by blast
  have st: "group_of m 8 = p_status p" "length (p_status p) = 3" "\<forall>x\<in>set (p_status p). is_digit x"
    using p by (simp_all add: group_state_of wf_parts_def)
  then have "p_status p \<noteq> []" by auto
  then have "code = decimal (p_status p)"
    using code st py_number_digits[of "p_status p" False] by (simp add: py_int_def)
  then show ?thesis
    using r decimal_nonneg[OF st(3)] decimal_less[OF st(3)] st(2) by simp
qed

text \<open>
The amended claim C4 at a line with status 404.
\<close>

theorem response_code_three_digits_witness:
  \<open>parseApacheLogLine ''127.0.0.1 - - [01/Aug/1995:00:00:01 -0400] "GET /index.html HTTP/1.0" 404 -''
     = Inr (Parsed \<lparr>host = ''127.0.0.1'', client_identd = ''-'', user_id = ''-'',
          date_time = \<lparr>year = 1995, month = 8, day = 1, hour = 0, minute = 0, second = 1\<rparr>,
          http_method = ''GET'', endpoint = ''/index.html'', protocol = ''HTTP/1.0'',
          response_code = 404, content_size = 0\<rparr>) \<and>
   (0::int) \<le> 404 \<and> (404::int) \<le> 999\<close>
proof -
  have p: \<open>parseApacheLogLine ''127.0.0.1 - - [01/Aug/1995:00:00:01 -0400] "GET /index.html HTTP/1.0" 404 -''
     = Inr (Parsed \<lparr>host = ''127.0.0.1'', client_identd = ''-'', user_id = ''-'',
          date_time = \<lparr>year = 1995, month = 8, day = 1, hour = 0, minute = 0, second = 1\<rparr>,
          http_method = ''GET'', endpoint = ''/index.html'', protocol = ''HTTP/1.0'',
          response_code = 404, content_size = 0\<rparr>)\<close>
    by (simp add: eval_match eval_parse)
  show ?thesis using response_code_three_digits[OF p] p by simp
qed

text \<open>
Claim C10. If a line parses to a row, the line followed by a space and any text parses to the same row.
\<close>

theorem trailing_text_ignored:
  assumes "parseApacheLogLine line = Inr (Parsed r)"
  shows "parseApacheLogLine (line @ CHR '' '' # extra) = Inr (Parsed r)"
proof -
  from parse_Parsed[OF assms] obtain m sz where
    m: "search APACHE_ACCESS_LOG_PATTERN line = Some m"
    and sz: "(if group_of m 9 = ''-'' then Inr 0 else py_long (group_of m 9)) = Inr sz" by auto
  have "hd (group_of m 9) \<noteq> CHR 0x22"
  proof (cases "group_of m 9 = ''-''")
    case True
    then show ?thesis by simp
  next
    case False
    then show ?thesis using sz py_number_hd[of True "group_of m 9" sz] by (simp add: py_long_def)
  qed
  from search_extend[OF m this]
  have "search APACHE_ACCESS_LOG_PATTERN (line @ CHR '' '' # extra) = search APACHE_ACCESS_LOG_PATTERN line"
    using m by simp
  then have "parseApacheLogLine (line @ CHR '' '' # extra) = parseApacheLogLine line"
    using m by (intro parse_of_search) simp_all
  then show ?thesis using assms by simp
qed

text \<open>
Claim C10 at a line extended by the referrer, the agent and a number.
\<close>

theorem trailing_text_ignored_witness:
  \<open>parseApacheLogLine ''127.0.0.1 - - [01/Aug/1995:00:00:01 -0400] "GET /index.html HTTP/1.0" 200 1839''
     = Inr (Parsed \<lparr>host = ''127.0.0.1'', client_identd = ''-'', user_id = ''-'',
          date_time = \<lparr>year = 1995, month = 8, day = 1, hour = 0, minute = 0, second = 1\<rparr>,
          http_method = ''GET'', endpoint = ''/index.html'', protocol = ''HTTP/1.0'',
          response_code = 200, content_size = 1839\<rparr>) \<and>
   parseApacheLogLine ''127.0.0.1 - - [01/Aug/1995:00:00:01 -0400] "GET /index.html HTTP/1.0" 200 1839 "-" "Mozilla/1.0" 17''
     = Inr (Parsed \<lparr>host = ''127.0.0.1'', client_identd = ''-'', user_id = ''-'',
          date_time = \<lparr>year = 1995, month = 8, day = 1, hour = 0, minute = 0, second = 1\<rparr>,
          http_method = ''GET'', endpoint = ''/index.html'', protocol = ''HTTP/1.0'',
          response_code = 200, content_size = 1839\<rparr>)\<close>
proof -
  have p: \<open>parseApacheLogLine ''127.0.0.1 - - [01/Aug/1995:00:00:01 -0400] "GET /index.html HTTP/1.0" 200 1839''
     = Inr (Parsed \<lparr>host = ''127.0.0.1'', client_identd = ''-'', user_id = ''-'',
          date_time = \<lparr>year = 1995, month = 8, day = 1, hour = 0, minute = 0, second = 1\<rparr>,
          http_method = ''GET'', endpoint = ''/index.html'', protocol = ''HTTP/1.0'',
          response_code = 200, content_size = 1839\<rparr>)\<close>
    by (simp add: eval_match eval_parse)
  show ?thesis
    using trailing_text_ignored[OF p, of \<open>''"-" "Mozilla/1.0" 17''\<close>] p by simp
qed

text \<open>
Claim C9. Take any line assembled from well-formed fields, where the request is the verb, a space, the endpoint and then either only white space (no protocol) or white space, a protocol and again any white space before the closing quote; let the size be digits or a dash and the timestamp denote a date. The line parses to the row holding these fields, and the protocol of the row is empty when the line has none.
\<close>

theorem request_field_tolerant:
  assumes "wf_parts p" and "canon p" and "p_rest p = [] \<or> is_space (hd (p_rest p))"
    and "p_size p = ''-'' \<or> (\<forall>x\<in>set (p_size p). is_digit x)"
    and "parse_apache_time (timestamp p) = Inr dt"
  shows "parseApacheLogLine (text_of p) =
           Inr (Parsed \<lparr>host = p_host p, client_identd = p_ident p, user_id = p_user p,
             date_time = dt, http_method = p_method p, endpoint = p_endpoint p,
             protocol = p_protocol p, response_code = decimal (p_status p),
             content_size = (if p_size p = ''-'' then 0 else decimal (p_size p))\<rparr>)"
proof -
  have size: "p_size p \<noteq> []" using assms(1) by (simp add: wf_parts_def token_def)
  have "hd (p_size p) \<noteq> CHR 0x22"
    using assms(4) size by (cases "p_size p") (auto simp: is_digit_def)
  then have m: "search APACHE_ACCESS_LOG_PATTERN (text_of p) = Some (state_of p)"
    using assms(1,2,3) by (intro search_ok)
  have sz: "(if p_size p = ''-'' then Inr 0 else py_long (p_size p))
            = Inr (if p_size p = ''-'' then 0 else decimal (p_size p))"
    using assms(4) size py_number_digits[of "p_size p" True] by (auto simp: py_long_def)
  have "p_status p \<noteq> []" "\<forall>x\<in>set (p_status p). is_digit x"
    using assms(1) by (auto simp: wf_parts_def)
  then have code: "py_int (p_status p) = Inr (decimal (p_status p))"
    using py_number_digits[of "p_status p" False] by (simp add: py_int_def)
  show ?thesis
    unfolding parseApacheLogLine_def m
    by (simp only: option.case Let_def group_state_of sz code assms(5) bind_exn_def sum.case)
qed

text \<open>
Claim C9 at a line with a space after the protocol, and at a line with no protocol and two spaces before the quote.
\<close>

theorem request_field_tolerant_witness:
  \<open>parseApacheLogLine ''ix-sac6-20.ix.netcom.com - - [08/Aug/1995:14:43:39 -0400] "GET / HTTP/1.0 " 200 7131''
     = Inr (Parsed \<lparr>host = ''ix-sac6-20.ix.netcom.com'', client_identd = ''-'', user_id = ''-'',
          date_time = \<lparr>year = 1995, month = 8, day = 8, hour = 14, minute = 43, second = 39\<rparr>,
          http_method = ''GET'', endpoint = ''/'', protocol = ''HTTP/1.0'',
          response_code = 200, content_size = 7131\<rparr>) \<and>
   parseApacheLogLine ''ix-sac6-20.ix.netcom.com - - [08/Aug/1995:14:43:39 -0400] "GET /index.html  " 200 -''
     = Inr (Parsed \<lparr>host = ''ix-sac6-20.ix.netcom.com'', client_identd = ''-'', user_id = ''-'',
          date_time = \<lparr>year = 1995, month = 8, day = 8, hour = 14, minute = 43, second = 39\<rparr>,
          http_method = ''GET'', endpoint = ''/index.html'', protocol = '''',
          response_code = 200, content_size = 0\<rparr>)\<close>
proof -
  let ?dt = "\<lparr>year = 1995, month = 8, day = 8, hour = 14, minute = 43, second = 39\<rparr>"
  let ?p1 = "\<lparr>p_host = ''ix-sac6-20.ix.netcom.com'', p_ident = ''-'', p_user = ''-'',
    p_time = ''08/Aug/1995:14:43:39'', p_ws = CHR '' '', p_sign = CHR ''-'', p_zone = ''0400'',
    p_method = ''GET'', p_endpoint = ''/'', p_sep = '' '', p_protocol = ''HTTP/1.0'', p_trail = '' '',
    p_status = ''200'', p_size = ''7131'', p_rest = ''''\<rparr>"
  let ?p2 = "\<lparr>p_host = ''ix-sac6-20.ix.netcom.com'', p_ident = ''-'', p_user = ''-'',
    p_time = ''08/Aug/1995:14:43:39'', p_ws = CHR '' '', p_sign = CHR ''-'', p_zone = ''0400'',
    p_method = ''GET'', p_endpoint = ''/index.html'', p_sep = ''  '', p_protocol = '''', p_trail = '''',
    p_status = ''200'', p_size = ''-'', p_rest = ''''\<rparr>"
  have wf_parts: "wf_parts ?p1" "wf_parts ?p2"
    by (simp_all add: wf_parts_def token_def zone_ok_def is_space_def is_digit_def is_word_def)
  have canon: "canon ?p1" "canon ?p2"
    by (simp_all add: canon_def)
  have rest: "p_rest ?p1 = [] \<or> is_space (hd (p_rest ?p1))" "p_rest ?p2 = [] \<or> is_space (hd (p_rest ?p2))"
    by simp_all
  have size: "p_size ?p1 = ''-'' \<or> (\<forall>x\<in>set (p_size ?p1). is_digit x)"
    "p_size ?p2 = ''-'' \<or> (\<forall>x\<in>set (p_size ?p2). is_digit x)"
    by (simp_all add: is_digit_def)
  have time: "parse_apache_time (timestamp ?p1) = Inr ?dt" "parse_apache_time (timestamp ?p2) = Inr ?dt"
    by (simp_all add: timestamp_def eval_match eval_parse)
  show ?thesis
    using request_field_tolerant[OF wf_parts(1) canon(1) rest(1) size(1) time(1)]
      request_field_tolerant[OF wf_parts(2) canon(2) rest(2) size(2) time(2)]
    by (simp add: text_of_def timestamp_def decimal_def digit_val_def)
qed

section \<open>Properties of the aggregations\<close>

subsection \<open>Reductions and counts per key\<close>

lemma foldl_assoc:
  assumes "\<And>a b c. f (f a b) c = f a (f b c)"
  shows "foldl f (f a y) ys = f a (foldl f y ys)"
proof (induction ys arbitrary: y)
  case Nil
  then show ?case by simp
next
  case (Cons z ys)
  have "foldl f (f (f a y) z) ys = foldl f (f a (f y z)) ys"
    by (simp add: assms)
  then show ?case using Cons[of "f y z"] by simp
qed

lemma rdd_reduce_split:
  assumes "\<And>a b c. f (f a b) c = f a (f b c)"
  shows "rdd_reduce f [xs, ys] = rdd_reduce f [xs @ ys]"
proof (cases xs)
  case Nil
  then show ?thesis by (simp add: rdd_reduce_def reduce_partition_def)
next
  case xs: (Cons x xs')
  show ?thesis
  proof (cases ys)
    case Nil
    then show ?thesis using xs by (simp add: rdd_reduce_def reduce_partition_def)
  next
    case (Cons y ys')
    then show ?thesis
      using xs foldl_assoc[OF assms, of "foldl f x xs'" y ys']
      by (simp add: rdd_reduce_def reduce_partition_def)
  qed
qed

lemma rdd_count_split: "rdd_count [xs, ys] = rdd_count [xs @ ys]"
  by (simp add: rdd_count_def)

lemma upd_keys:
  "map fst (map (\<lambda>e. if fst e = k then (fst e, g e) else e) d) = map fst d"
  by (induction d) auto

lemma merge_value_keys: "fst ` set (merge_value f d kv) = insert (fst kv) (fst ` set d)"
proof (cases "map_of d (fst kv)")
  case None
  then show ?thesis by (simp add: merge_value_def)
next
  case (Some a)
  then have "fst kv \<in> fst ` set d" by (metis map_of_eq_None_iff option.distinct(1))
  moreover have "fst ` set (map (\<lambda>e. if fst e = fst kv then (fst e, f (snd e) (snd kv)) else e) d) = fst ` set d"
    using upd_keys[of "fst kv" "\<lambda>e. f (snd e) (snd kv)" d] by (metis set_map)
  ultimately show ?thesis using Some by (auto simp: merge_value_def)
qed

lemma merge_value_distinct:
  assumes "distinct (map fst d)"
  shows "distinct (map fst (merge_value f d kv))"
proof (cases "map_of d (fst kv)")
  case None
  then have "fst kv \<notin> fst ` set d" by (simp add: map_of_eq_None_iff)
  then show ?thesis using assms None by (simp add: merge_value_def)
next
  case (Some a)
  have "map fst (map (\<lambda>e. if fst e = fst kv then (fst e, f (snd e) (snd kv)) else e) d) = map fst d"
    by (rule upd_keys)
  then show ?thesis using assms Some unfolding merge_value_def by (simp del: map_map)
qed

lemma map_of_merge_value:
  assumes "distinct (map fst d)"
  shows "map_of (merge_value f d kv) k =
           (if k = fst kv then (case map_of d k of None \<Rightarrow> Some (snd kv) | Some a \<Rightarrow> Some (f a (snd kv)))
            else map_of d k)"
proof (cases "map_of d (fst kv)")
  case None
  then have "fst kv \<notin> fst ` set d" by (simp add: map_of_eq_None_iff)
  then show ?thesis using None
    by (cases kv) (auto simp: merge_value_def map_add_def split: option.splits)
next
  case (Some a)
  have "map_of (map (\<lambda>e. if fst e = fst kv then (fst e, f (snd e) (snd kv)) else e) d) k
        = (if k = fst kv then map_option (\<lambda>b. f b (snd kv)) (map_of d k) else map_of d k)"
    by (induction d) auto
  then show ?thesis using Some by (auto simp: merge_value_def)
qed

lemma combine_gen_keys: "fst ` set (foldl (merge_value f) d p) = fst ` set d \<union> fst ` set p"
  by (induction p arbitrary: d) (auto simp: merge_value_keys)

lemma combine_gen_distinct:
  "distinct (map fst d) \<Longrightarrow> distinct (map fst (foldl (merge_value f) d p))"
  by (induction p arbitrary: d) (auto simp: merge_value_distinct)

lemma combine_keys: "fst ` set (combine f p) = fst ` set p"
  by (simp add: combine_def combine_gen_keys)

lemma combine_distinct: "distinct (map fst (combine f p))"
  by (simp add: combine_def combine_gen_distinct)

lemma total_of_simps [simp]:
  "total_of k [] = 0"
  "total_of k (kv # p) = (if fst kv = k then snd kv + total_of k p else total_of k p)"
  "total_of k (p @ q) = total_of k p + total_of k q"
  by (simp_all add: total_of_def)

lemma map_of_combine_gen:
  assumes "distinct (map fst d)"
  shows "map_of (foldl (merge_value (\<lambda>a b. a + b)) d p) k =
           (case map_of d k of
              None \<Rightarrow> (if k \<in> fst ` set p then Some (total_of k p) else None)
            | Some a \<Rightarrow> Some (a + total_of k p))"
  using assms
proof (induction p arbitrary: d)
  case Nil
  then show ?case by (simp split: option.split)
next
  case (Cons kv p)
  have d': "distinct (map fst (merge_value (\<lambda>a b. a + b) d kv))"
    using Cons.prems by (rule merge_value_distinct)
  show ?case
    using Cons.IH[OF d'] Cons.prems
    by (auto simp: map_of_merge_value split: option.splits)
qed

lemma map_of_combine:
  "map_of (combine (\<lambda>a b. a + b) p) k = (if k \<in> fst ` set p then Some (total_of k p) else None)"
  using map_of_combine_gen[of "[]" p k] by (simp add: combine_def)

lemma total_of_combine: "total_of k (combine (\<lambda>a b. a + b) p) = total_of k p"
proof -
  have *: "distinct (map fst d) \<Longrightarrow> total_of k d = (case map_of d k of None \<Rightarrow> 0 | Some a \<Rightarrow> a)" for d :: "('a \<times> int) list"
  proof (induction d)
    case Nil
    then show ?case by simp
  next
    case (Cons e d)
    then show ?case
      by (cases e) (auto simp: map_of_eq_None_iff image_iff split: option.splits)
  qed
  have "total_of k p = 0" if "k \<notin> fst ` set p"
    using that by (induction p) auto
  moreover have "total_of k (combine (\<lambda>a b. a + b) p)
      = (case map_of (combine (\<lambda>a b. a + b) p) k of None \<Rightarrow> 0 | Some a \<Rightarrow> a)"
    by (rule *) (rule combine_distinct)
  ultimately show ?thesis by (auto simp: map_of_combine)
qed

lemma combined_keys: "fst ` set (concat (map (combine f) r)) = fst ` set (concat r)"
  by (induction r) (auto simp: combine_keys image_Un)

lemma combined_total:
  "total_of k (concat (map (combine (\<lambda>a b. a + b)) r)) = total_of k (concat r)"
  by (induction r) (auto simp: total_of_combine)

lemma bucket_less: "bucket n h k < max 1 n"
  by (simp add: bucket_def)

lemma collect_reduceByKey:
  "collect (reduceByKey f n h r) =
     concat (map (\<lambda>i. combine f (filter (\<lambda>kv. bucket n h (fst kv) = i) (concat (map (combine f) r))))
       [0..<max 1 n])"
  by (simp add: collect_def reduceByKey_def Let_def)

lemma bucket_keys:
  "fst ` set (combine f (filter (\<lambda>kv. bucket n h (fst kv) = i) M)) = {k \<in> fst ` set M. bucket n h k = i}"
  by (auto simp: combine_keys image_iff)

lemma buckets_keys:
  "fst ` set (concat (map (\<lambda>i. combine f (filter (\<lambda>kv. bucket n h (fst kv) = i) M)) [0..<max 1 n]))
   = fst ` set M"
proof -
  have "fst ` set (concat (map (\<lambda>i. combine f (filter (\<lambda>kv. bucket n h (fst kv) = i) M)) [0..<max 1 n]))
        = (\<Union>i\<in>{0..<max 1 n}. fst ` set (combine f (filter (\<lambda>kv. bucket n h (fst kv) = i) M)))"
    by (simp add: image_UN)
  also have "\<dots> = (\<Union>i\<in>{0..<max 1 n}. {k \<in> fst ` set M. bucket n h k = i})"
    by (simp only: bucket_keys)
  also have "\<dots> = fst ` set M"
  proof
    show "(\<Union>i\<in>{0..<max 1 n}. {k \<in> fst ` set M. bucket n h k = i}) \<subseteq> fst ` set M" by blast
    show "fst ` set M \<subseteq> (\<Union>i\<in>{0..<max 1 n}. {k \<in> fst ` set M. bucket n h k = i})"
    proof
      fix k assume "k \<in> fst ` set M"
      then have "k \<in> {k \<in> fst ` set M. bucket n h k = bucket n h k}" "bucket n h k \<in> {0..<max 1 n}"
        using bucket_less[of n h k] by simp_all
      then show "k \<in> (\<Union>i\<in>{0..<max 1 n}. {k \<in> fst ` set M. bucket n h k = i})" by blast
    qed
  qed
  finally show ?thesis .
qed

lemma keys_reduceByKey: "fst ` set (collect (reduceByKey f n h r)) = fst ` set (concat r)"
  unfolding collect_reduceByKey buckets_keys by (rule combined_keys)

lemma distinct_buckets:
  assumes "\<And>i. distinct (map fst (g i))" and "\<And>i kv. kv \<in> set (g i) \<Longrightarrow> c (fst kv) = i"
  shows "distinct (map fst (concat (map g [0..<N])))"
proof (induction N)
  case 0
  then show ?case by simp
next
  case (Suc N)
  have "fst ` set (concat (map g [0..<N])) \<inter> fst ` set (g N) = {}"
  proof (rule ccontr)
    assume "fst ` set (concat (map g [0..<N])) \<inter> fst ` set (g N) \<noteq> {}"
    then obtain k where k: "k \<in> fst ` set (concat (map g [0..<N]))" "k \<in> fst ` set (g N)"
      by blast
    from k(1) obtain kv where kv: "kv \<in> set (concat (map g [0..<N]))" "k = fst kv" by blast
    from k(2) obtain kv' where kv': "kv' \<in> set (g N)" "k = fst kv'" by blast
    from kv(1) obtain i where i: "i < N" "kv \<in> set (g i)" by auto
    have "c (fst kv) = i" using i(2) by (rule assms(2))
    moreover have "c (fst kv') = N" using kv'(1) by (rule assms(2))
    ultimately show False using kv(2) kv'(2) i(1) by simp
  qed
  then show ?case using Suc assms(1)[of N] by simp
qed

lemma distinct_reduceByKey: "distinct (map fst (collect (reduceByKey f n h r)))"
  unfolding collect_reduceByKey
proof (rule distinct_buckets[where c = "bucket n h"])
  show "distinct (map fst (combine f (filter (\<lambda>kv. bucket n h (fst kv) = i) (concat (map (combine f) r)))))" for i
    by (rule combine_distinct)
  show "bucket n h (fst kv) = i"
    if "kv \<in> set (combine f (filter (\<lambda>kv. bucket n h (fst kv) = i) (concat (map (combine f) r))))" for i kv
  proof -
    have "fst kv \<in> fst ` set (combine f (filter (\<lambda>kv. bucket n h (fst kv) = i) (concat (map (combine f) r))))"
      using that by (rule imageI)
    then show ?thesis unfolding bucket_keys by simp
  qed
qed

lemma total_of_bucket:
  "bucket n h k = i \<Longrightarrow> total_of k (filter (\<lambda>kv. bucket n h (fst kv) = i) M) = total_of k M"
  by (induction M) auto

lemma buckets_mem:
  "(k, v) \<in> set (concat (map (\<lambda>i. combine (\<lambda>a b. a + b) (filter (\<lambda>kv. bucket n h (fst kv) = i) M))
                     [0..<max 1 n])) \<longleftrightarrow>
     k \<in> fst ` set M \<and> v = total_of k M"
proof -
  let ?B = "\<lambda>i. filter (\<lambda>kv. bucket n h (fst kv) = i) M"
  have one: "(k, v) \<in> set (combine (\<lambda>a b. a + b) (?B i)) \<longleftrightarrow>
               bucket n h k = i \<and> k \<in> fst ` set M \<and> v = total_of k M" for i
  proof -
    have keys: "k \<in> fst ` set (?B i) \<longleftrightarrow> bucket n h k = i \<and> k \<in> fst ` set M"
      by force
    have "(k, v) \<in> set (combine (\<lambda>a b. a + b) (?B i)) \<longleftrightarrow> map_of (combine (\<lambda>a b. a + b) (?B i)) k = Some v"
      using combine_distinct[of "\<lambda>a b. a + b" "?B i"] by simp
    also have "\<dots> \<longleftrightarrow> k \<in> fst ` set (?B i) \<and> v = total_of k (?B i)"
      unfolding map_of_combine by auto
    also have "\<dots> \<longleftrightarrow> bucket n h k = i \<and> k \<in> fst ` set M \<and> v = total_of k M"
      unfolding keys using total_of_bucket[of n h k i M] by auto
    finally show ?thesis .
  qed
  have "(k, v) \<in> set (concat (map (\<lambda>i. combine (\<lambda>a b. a + b) (?B i)) [0..<max 1 n]))
        \<longleftrightarrow> (\<exists>i<max 1 n. (k, v) \<in> set (combine (\<lambda>a b. a + b) (?B i)))"
    by auto
  also have "\<dots> \<longleftrightarrow> k \<in> fst ` set M \<and> v = total_of k M"
    unfolding one using bucket_less[of n h k] by auto
  finally show ?thesis .
qed

lemma mem_reduceByKey:
  "(k, v) \<in> set (collect (reduceByKey (\<lambda>a b. a + b) n h r)) \<longleftrightarrow>
     k \<in> fst ` set (concat r) \<and> v = total_of k (concat r)"
  unfolding collect_reduceByKey buckets_mem combined_keys combined_total by (rule refl)

lemma map_of_reduceByKey:
  "map_of (collect (reduceByKey (\<lambda>a b. a + b) n h r)) k =
     (if k \<in> fst ` set (concat r) then Some (total_of k (concat r)) else None)"
proof (cases "k \<in> fst ` set (concat r)")
  case True
  then have "(k, total_of k (concat r)) \<in> set (collect (reduceByKey (\<lambda>a b. a + b) n h r))"
    by (simp only: mem_reduceByKey)
  then show ?thesis using True distinct_reduceByKey[of "\<lambda>a b. a + b" n h r] by simp
next
  case False
  then have "k \<notin> fst ` set (collect (reduceByKey (\<lambda>a b. a + b) n h r))"
    by (simp only: keys_reduceByKey not_False_eq_True)
  then show ?thesis using False by (simp add: map_of_eq_None_iff)
qed

subsection \<open>Independence of the partitioning\<close>

lemma foldl_perm:
  assumes "\<And>a b c. f (f a b) c = f a (f b c)" "\<And>a b. f a b = f b a"
    and "mset xs = mset ys"
  shows "foldl f a xs = foldl f a ys"
proof -
  have "fold (\<lambda>x a. f a x) xs = fold (\<lambda>x a. f a x) ys"
  proof (rule fold_multiset_equiv)
    show "(\<lambda>a. f a x) \<circ> (\<lambda>a. f a y) = (\<lambda>a. f a y) \<circ> (\<lambda>a. f a x)" for x y
    proof
      fix a
      have "f (f a y) x = f a (f y x)" by (rule assms(1))
      also have "\<dots> = f a (f x y)" by (simp only: assms(2)[of y x])
      also have "\<dots> = f (f a x) y" by (rule assms(1)[symmetric])
      finally show "((\<lambda>a. f a x) \<circ> (\<lambda>a. f a y)) a = ((\<lambda>a. f a y) \<circ> (\<lambda>a. f a x)) a" by simp
    qed
    show "mset xs = mset ys" by (rule assms(3))
  qed
  then show ?thesis by (simp add: foldl_conv_fold)
qed

lemma reduce_perm:
  assumes "\<And>a b c. f (f a b) c = f a (f b c)" "\<And>a b. f a b = f b a"
    and "mset (x # xs) = mset (y # ys)"
  shows "foldl f x xs = foldl f y ys"
proof (cases "x = y")
  case True
  then have "mset xs = mset ys" using assms(3) by simp
  then have "foldl f x xs = foldl f x ys" by (rule foldl_perm[OF assms(1,2)])
  then show ?thesis using True by simp
next
  case False
  have "set (x # xs) = set (y # ys)" using assms(3) by (rule mset_eq_setD)
  then have "y \<in> set (x # xs)" by simp
  then have "y \<in> set xs" using False by simp
  then obtain us vs where xs: "xs = us @ y # vs" by (meson split_list)
  have 1: "mset xs = mset (y # us @ vs)" using xs by simp
  have 2: "mset (x # us @ vs) = mset ys" using assms(3) xs by simp
  have "foldl f x xs = foldl f x (y # us @ vs)"
    using 1 by (rule foldl_perm[OF assms(1,2)])
  also have "\<dots> = foldl f (f y x) (us @ vs)" by (simp add: assms(2)[of x y])
  also have "\<dots> = foldl f y (x # us @ vs)" by simp
  also have "\<dots> = foldl f y ys"
    using 2 by (rule foldl_perm[OF assms(1,2)])
  finally show ?thesis .
qed

lemma reduce_partition_perm:
  assumes "\<And>a b c. f (f a b) c = f a (f b c)" "\<And>a b. f a b = f b a"
    and "mset s = mset t"
  shows "reduce_partition f s = reduce_partition f t"
proof (cases s)
  case Nil
  then show ?thesis using assms(3) by simp
next
  case s: (Cons x xs)
  then obtain y ys where t: "t = y # ys" using assms(3) by (cases t) auto
  have "foldl f x xs = foldl f y ys"
    using assms(3) unfolding s t by (rule reduce_perm[OF assms(1,2)])
  then show ?thesis
    using s t by (simp add: reduce_partition_def)
qed

lemma reduce_partition_append:
  assumes "\<And>a b c. f (f a b) c = f a (f b c)"
    and "reduce_partition f l = reduce_partition f l'"
  shows "reduce_partition f (reduce_partition f p @ l) = reduce_partition f (p @ l')"
proof (cases p)
  case Nil
  then show ?thesis using assms(2) by (cases l) (simp_all add: reduce_partition_def)
next
  case p: (Cons x xs)
  have "foldl f a l = foldl f a l'" for a
  proof (cases l)
    case Nil
    then have "l' = []" using assms(2) by (cases l') (simp_all add: reduce_partition_def)
    then show ?thesis using Nil by simp
  next
    case l: (Cons v vs)
    then obtain v' vs' where l': "l' = v' # vs'"
      using assms(2) by (cases l') (simp_all add: reduce_partition_def)
    have "foldl f v vs = foldl f v' vs'"
      using assms(2) l l' by (simp add: reduce_partition_def)
    then show ?thesis
      using l l' foldl_assoc[OF assms(1), of a v vs] foldl_assoc[OF assms(1), of a v' vs']
      by simp
  qed
  then show ?thesis using p by (simp add: reduce_partition_def)
qed

lemma partials_flat:
  assumes "\<And>a b c. f (f a b) c = f a (f b c)"
  shows "reduce_partition f (concat (map (reduce_partition f) r)) = reduce_partition f (concat r)"
proof (induction r)
  case Nil
  then show ?case by simp
next
  case (Cons p r)
  then show ?case using reduce_partition_append[OF assms] by simp
qed

lemma rdd_reduce_flat:
  assumes "\<And>a b c. f (f a b) c = f a (f b c)"
  shows "rdd_reduce f r = (case reduce_partition f (concat r) of [] \<Rightarrow> Inl ValueError | v # vs \<Rightarrow> Inr v)"
proof -
  have "(case l of [] \<Rightarrow> Inl ValueError | v # vs \<Rightarrow> Inr (foldl f v vs)) =
        (case reduce_partition f l of [] \<Rightarrow> Inl ValueError | v # vs \<Rightarrow> Inr v)" for l
    by (cases l) (simp_all add: reduce_partition_def)
  then have "rdd_reduce f r =
          (case reduce_partition f (concat (map (reduce_partition f) r)) of
             [] \<Rightarrow> Inl ValueError | v # vs \<Rightarrow> Inr v)"
    unfolding rdd_reduce_def .
  then show ?thesis by (simp only: partials_flat[OF assms])
qed

lemma rdd_reduce_mset:
  assumes "\<And>a b c. f (f a b) c = f a (f b c)" "\<And>a b. f a b = f b a"
    and "mset (concat r) = mset (concat r')"
  shows "rdd_reduce f r = rdd_reduce f r'"
  unfolding rdd_reduce_flat[OF assms(1)]
  by (simp only: reduce_partition_perm[OF assms])

lemma rdd_count_length: "rdd_count r = int (length (concat r))"
  by (induction r) (auto simp: rdd_count_def)

lemma rdd_count_mset:
  assumes "mset (concat r) = mset (concat r')"
  shows "rdd_count r = rdd_count r'"
proof -
  have "length (concat r) = length (concat r')" using assms by (rule mset_eq_length)
  then show ?thesis by (simp only: rdd_count_length)
qed

lemma total_of_ones:
  "total_of d (map (\<lambda>log. (sel log, 1)) L) = int (length (filter (\<lambda>log. sel log = d) L))"
  by (induction L) auto

lemma concat_rdd_map: "concat (rdd_map g r) = map g (concat r)"
  by (simp add: rdd_map_def map_concat)

lemma map_of_group_count:
  "map_of (collect (group_count sel n h logs)) k =
     (if k \<in> sel ` set (collect logs)
      then Some (int (length (filter (\<lambda>log. sel log = k) (collect logs)))) else None)"
  unfolding group_count_def map_of_reduceByKey concat_rdd_map total_of_ones
  by (simp add: collect_def image_image)

lemma group_count_mset:
  assumes "mset (collect r) = mset (collect r')"
  shows "map_of (collect (group_count sel n h r)) = map_of (collect (group_count sel n' h' r'))"
proof
  fix k
  have "set (collect r) = set (collect r')" using assms by (rule mset_eq_setD)
  moreover have "length (filter (\<lambda>log. sel log = k) (collect r))
      = length (filter (\<lambda>log. sel log = k) (collect r'))"
  proof -
    have "mset (filter (\<lambda>log. sel log = k) (collect r)) = mset (filter (\<lambda>log. sel log = k) (collect r'))"
      by (simp only: mset_filter assms)
    then show ?thesis by (rule mset_eq_length)
  qed
  ultimately show "map_of (collect (group_count sel n h r)) k = map_of (collect (group_count sel n' h' r')) k"
    by (simp only: map_of_group_count)
qed

lemma group_count_distinct: "distinct (map fst (collect (group_count sel n h logs)))"
  unfolding group_count_def by (rule distinct_reduceByKey)

text \<open>
Claim C6. Take a stream of rows s and any two pieces xs and ys that hold the rows of s between them, in any order. The count, the sum, the minimum, the maximum and the mean of the content sizes and the count per key computed on the two pieces as two partitions, each reduced alone and the partial results merged, are those computed on the whole stream as one partition. The count per key is compared as a mapping from keys to counts, whatever the number of output partitions and the partitioning function on either side; its keys are distinct on both sides.
\<close>

theorem merge_of_two_pieces:
  assumes "mset s = mset xs + mset ys"
  shows
  "rdd_count (content_sizes [xs, ys]) = rdd_count (content_sizes [s]) \<and>
   rdd_reduce (\<lambda>a b. a + b) (content_sizes [xs, ys]) = rdd_reduce (\<lambda>a b. a + b) (content_sizes [s]) \<and>
   content_size_min [xs, ys] = content_size_min [s] \<and>
   content_size_max [xs, ys] = content_size_max [s] \<and>
   content_size_avg [xs, ys] = content_size_avg [s] \<and>
   map_of (collect (group_count sel n h [xs, ys])) = map_of (collect (group_count sel n' h' [s])) \<and>
   distinct (map fst (collect (group_count sel n h [xs, ys]))) \<and>
   distinct (map fst (collect (group_count sel n' h' [s]))) \<and>
   responseCodeToCount n'' h'' [xs, ys] = group_count response_code n'' h'' [xs, ys]"
proof -
  have m: "mset (collect [xs, ys]) = mset (collect [s])"
    using assms by (simp add: collect_def)
  have "mset (map content_size (concat [xs, ys])) = mset (map content_size (concat [s]))"
    using assms by simp
  then have cs: "mset (concat (content_sizes [xs, ys])) = mset (concat (content_sizes [s]))"
    unfolding content_sizes_def concat_rdd_map .
  have 1: "rdd_count (content_sizes [xs, ys]) = rdd_count (content_sizes [s])"
    using cs by (rule rdd_count_mset)
  have 2: "rdd_reduce (\<lambda>a b. a + b) (content_sizes [xs, ys])
           = rdd_reduce (\<lambda>a b. a + b) (content_sizes [s])"
    by (rule rdd_reduce_mset[OF _ _ cs]) simp_all
  have 3: "content_size_min [xs, ys] = content_size_min [s]"
    unfolding content_size_min_def rdd_min_def
    by (rule rdd_reduce_mset[OF _ _ cs]) (simp_all add: min.assoc min.commute)
  have 4: "content_size_max [xs, ys] = content_size_max [s]"
    unfolding content_size_max_def rdd_max_def
    by (rule rdd_reduce_mset[OF _ _ cs]) (simp_all add: max.assoc max.commute)
  have 5: "content_size_avg [xs, ys] = content_size_avg [s]"
    unfolding content_size_avg_def by (simp only: 1 2)
  have 6: "map_of (collect (group_count sel n h [xs, ys])) = map_of (collect (group_count sel n' h' [s]))"
    using m by (rule group_count_mset)
  have 7: "distinct (map fst (collect (group_count sel n h [xs, ys])))"
    "distinct (map fst (collect (group_count sel n' h' [s])))"
    by (rule group_count_distinct)+
  have 8: "responseCodeToCount n'' h'' [xs, ys] = group_count response_code n'' h'' [xs, ys]"
    by (simp add: responseCodeToCount_def group_count_def)
  show ?thesis using 1 2 3 4 5 6 7 8 by blast
qed

subsection \<open>The largest counts\<close>

lemma nsmallest_set: "set (nsmallest n key xs) \<subseteq> set xs"
  using set_take_subset[of "nat n" "sort_key key xs"] by (simp add: nsmallest_def)

lemma nsmallest_len: "length (nsmallest n key xs) = min (nat n) (length xs)"
  by (simp add: nsmallest_def min.commute)

lemma nsmallest_distinct: "distinct xs \<Longrightarrow> distinct (nsmallest n key xs)"
  by (simp add: nsmallest_def)

lemma nsmallest_least:
  assumes "x \<in> set (nsmallest n key xs)" "y \<in> set xs - set (nsmallest n key xs)"
  shows "key x \<le> key y"
proof -
  let ?s = "sort_key key xs"
  have s: "sorted (map key ?s)" "set ?s = set xs" by simp_all
  have split: "?s = take (nat n) ?s @ drop (nat n) ?s" by simp
  have "y \<in> set (drop (nat n) ?s)"
    using assms(2) s(2) split by (metis DiffD1 DiffD2 Un_iff nsmallest_def set_append)
  moreover have "sorted (map key (take (nat n) ?s) @ map key (drop (nat n) ?s))"
    using s(1) by (metis append_take_drop_id map_append)
  ultimately show ?thesis
    using assms(1) by (auto simp: sorted_append nsmallest_def)
qed

lemma nsmallest_smallest:
  assumes "distinct E"
  shows "smallest_of n key (nsmallest n key E) E"
  unfolding smallest_of_def
proof (intro conjI ballI)
  show "set (nsmallest n key E) \<subseteq> set E" by (rule nsmallest_set)
  show "distinct (nsmallest n key E)" using assms by (rule nsmallest_distinct)
  show "length (nsmallest n key E) = min (nat n) (length E)" by (rule nsmallest_len)
  show "key x \<le> key y" if "x \<in> set (nsmallest n key E)" "y \<in> set E - set (nsmallest n key E)" for x y
    using that by (rule nsmallest_least)
qed

lemma smallest_full:
  assumes "smallest_of n key R E" "distinct E" "y \<in> set E" "y \<notin> set R"
  shows "length R = nat n"
proof -
  have R: "set R \<subseteq> set E" "distinct R" "length R = min (nat n) (length E)"
    using assms(1) by (simp_all add: smallest_of_def)
  have "set R \<subset> set E" using R(1) assms(3,4) by blast
  then have "card (set R) < card (set E)" by (simp add: psubset_card_mono)
  then have "length R < length E" using R(2) assms(2) by (simp add: distinct_card)
  then show ?thesis using R(3) by simp
qed

lemma merge_outside:
  assumes "set R' \<subseteq> set L" "distinct R'" "length R' = nat n" "\<forall>z\<in>set R'. key z \<le> key y"
    and x: "x \<in> set (nsmallest n key L)"
  shows "key x \<le> (key y :: int)"
proof (rule ccontr)
  assume "\<not> key x \<le> key y"
  then have lt: "key y < key x" by simp
  let ?R = "nsmallest n key L"
  have "set R' \<subseteq> set ?R"
  proof
    fix z assume z: "z \<in> set R'"
    show "z \<in> set ?R"
    proof (rule ccontr)
      assume "z \<notin> set ?R"
      then have "z \<in> set L - set ?R" using z assms(1) by auto
      with x have "key x \<le> key z" by (rule nsmallest_least)
      moreover have "key z \<le> key y" using assms(4) z by simp
      ultimately show False using lt by simp
    qed
  qed
  moreover have nx: "x \<notin> set R'"
  proof
    assume "x \<in> set R'"
    then have "key x \<le> key y" using assms(4) by simp
    then show False using lt by simp
  qed
  ultimately have "insert x (set R') \<subseteq> set ?R" using x by simp
  then have "card (insert x (set R')) \<le> card (set ?R)" by (simp add: card_mono)
  moreover have "card (insert x (set R')) = Suc (length R')"
    using nx assms(2) by (simp add: distinct_card)
  moreover have "card (set ?R) \<le> length ?R" by (rule card_length)
  moreover have "length ?R \<le> nat n" by (simp add: nsmallest_def)
  ultimately show False using assms(3) by simp
qed

lemma merge_smallest:
  assumes a: "smallest_of n key Ra A" and b: "smallest_of n key Rb B" and d: "distinct (A @ B)"
  shows "smallest_of n key (nsmallest n key (Ra @ Rb)) (A @ B)"
proof -
  let ?R = "nsmallest n key (Ra @ Rb)"
  have Ra: "set Ra \<subseteq> set A" "distinct Ra" "length Ra = min (nat n) (length A)"
    "\<forall>x\<in>set Ra. \<forall>y\<in>set A - set Ra. key x \<le> key y"
    using a by (simp_all add: smallest_of_def)
  have Rb: "set Rb \<subseteq> set B" "distinct Rb" "length Rb = min (nat n) (length B)"
    "\<forall>x\<in>set Rb. \<forall>y\<in>set B - set Rb. key x \<le> key y"
    using b by (simp_all add: smallest_of_def)
  have dA: "distinct A" and dB: "distinct B" and AB: "set A \<inter> set B = {}" using d by simp_all
  have dR: "distinct (Ra @ Rb)" using Ra(1,2) Rb(1,2) AB by auto
  have sub: "set ?R \<subseteq> set (A @ B)"
    using nsmallest_set[of n key "Ra @ Rb"] Ra(1) Rb(1) by auto
  have dist: "distinct ?R" using dR by (rule nsmallest_distinct)
  have "length ?R = min (nat n) (min (nat n) (length A) + min (nat n) (length B))"
    using Ra(3) Rb(3) by (simp add: nsmallest_len)
  also have "\<dots> = min (nat n) (length A + length B)" by linarith
  finally have len: "length ?R = min (nat n) (length (A @ B))" by simp
  have least: "key x \<le> key y" if x: "x \<in> set ?R" and y: "y \<in> set (A @ B) - set ?R" for x y
  proof (cases "y \<in> set (Ra @ Rb)")
    case True
    then have "y \<in> set (Ra @ Rb) - set ?R" using y by simp
    with x show ?thesis by (rule nsmallest_least)
  next
    case False
    then consider "y \<in> set A" "y \<notin> set Ra" | "y \<in> set B" "y \<notin> set Rb" using y by auto
    then show ?thesis
    proof cases
      case 1
      have "length Ra = nat n" using a dA 1 by (rule smallest_full)
      moreover have "\<forall>z\<in>set Ra. key z \<le> key y" using Ra(4) 1 by simp
      moreover have "set Ra \<subseteq> set (Ra @ Rb)" by simp
      ultimately show ?thesis using Ra(2) x merge_outside[of Ra "Ra @ Rb" n key y x] by blast
    next
      case 2
      have "length Rb = nat n" using b dB 2 by (rule smallest_full)
      moreover have "\<forall>z\<in>set Rb. key z \<le> key y" using Rb(4) 2 by simp
      moreover have "set Rb \<subseteq> set (Ra @ Rb)" by simp
      ultimately show ?thesis using Rb(2) x merge_outside[of Rb "Ra @ Rb" n key y x] by blast
    qed
  qed
  show ?thesis
    unfolding smallest_of_def using sub dist len least by blast
qed

lemma merge_all:
  assumes "smallest_of n key acc E" "distinct (E @ concat ps)"
  shows "smallest_of n key (foldl (\<lambda>a b. nsmallest n key (a @ b)) acc (map (nsmallest n key) ps))
           (E @ concat ps)"
  using assms
proof (induction ps arbitrary: acc E)
  case Nil
  then show ?case by simp
next
  case (Cons p ps)
  have dp: "distinct p" using Cons.prems(2) by simp
  have p: "smallest_of n key (nsmallest n key p) p" using dp by (rule nsmallest_smallest)
  have "distinct (E @ p)" using Cons.prems(2) by auto
  with Cons.prems(1) p have s: "smallest_of n key (nsmallest n key (acc @ nsmallest n key p)) (E @ p)"
    by (rule merge_smallest)
  have "distinct ((E @ p) @ concat ps)" using Cons.prems(2) by simp
  with s have "smallest_of n key
      (foldl (\<lambda>a b. nsmallest n key (a @ b)) (nsmallest n key (acc @ nsmallest n key p))
         (map (nsmallest n key) ps)) ((E @ p) @ concat ps)"
    by (rule Cons.IH)
  then show ?case by simp
qed

lemma takeOrdered_cons:
  "takeOrdered n key (p # ps) =
     Inr (foldl (\<lambda>a b. nsmallest n key (a @ b)) (nsmallest n key p) (map (nsmallest n key) ps))"
proof -
  have part: "concat (map (reduce_partition (\<lambda>a b. nsmallest n key (a @ b)))
                 (map (\<lambda>p. [nsmallest n key p]) r)) = map (nsmallest n key) r" for r
    by (induction r) (simp_all add: reduce_partition_def)
  show ?thesis unfolding takeOrdered_def rdd_reduce_def part by simp
qed

lemma takeOrdered_smallest:
  assumes "r \<noteq> []" "distinct (concat r)"
  shows "\<exists>res. takeOrdered n key r = Inr res \<and> smallest_of n key res (concat r)"
proof -
  obtain p ps where r: "r = p # ps" using assms(1) by (cases r) auto
  have "distinct p" using assms(2) r by simp
  then have "smallest_of n key (nsmallest n key p) p" by (rule nsmallest_smallest)
  moreover have "distinct (p @ concat ps)" using assms(2) r by simp
  ultimately have "smallest_of n key
      (foldl (\<lambda>a b. nsmallest n key (a @ b)) (nsmallest n key p) (map (nsmallest n key) ps))
      (p @ concat ps)"
    by (rule merge_all)
  then show ?thesis using r by (simp add: takeOrdered_cons)
qed

lemma group_count_nonempty: "group_count sel n h logs \<noteq> []"
  by (simp add: group_count_def reduceByKey_def Let_def)

lemma top_k_smallest:
  "\<exists>res. top_k k sel n h logs = Inr res \<and>
     smallest_of k (\<lambda>s. -1 * snd s) res (collect (group_count sel n h logs))"
proof -
  have "distinct (collect (group_count sel n h logs))"
    using group_count_distinct[of sel n h logs] by (simp add: distinct_map)
  then have "distinct (concat (group_count sel n h logs))" by (simp only: collect_def)
  with group_count_nonempty[of sel n h logs] show ?thesis
    unfolding top_k_def collect_def by (rule takeOrdered_smallest)
qed

lemma group_count_keys: "fst ` set (collect (group_count sel n h logs)) = sel ` set (collect logs)"
proof -
  have "fst ` set (concat (rdd_map (\<lambda>log. (sel log, 1::int)) logs)) = sel ` set (concat logs)"
    unfolding concat_rdd_map by (simp add: image_image)
  then show ?thesis
    unfolding group_count_def keys_reduceByKey by (simp only: collect_def)
qed

lemma group_count_length:
  "length (collect (group_count sel n h logs)) = card (sel ` set (collect logs))"
proof -
  have "card (set (map fst (collect (group_count sel n h logs))))
        = length (map fst (collect (group_count sel n h logs)))"
    using group_count_distinct[of sel n h logs] by (rule distinct_card)
  then show ?thesis using group_count_keys[of sel n h logs] by simp
qed

text \<open>
Claim C5, amended. For every collection of rows, every key selector and every k, and whatever the number of partitions and the partitioning function of the count per key, the ranking returns a list of pairs of the count per key, with distinct keys, of length max(0, min(k, number of distinct keys)), and every count in it is at least every count left out.
\<close>

theorem top_k_subset:
  "\<exists>res. top_k k sel n h logs = Inr res \<and>
     set res \<subseteq> set (collect (group_count sel n h logs)) \<and> distinct (map fst res) \<and>
     int (length res) = max 0 (min k (int (card (sel ` set (collect logs))))) \<and>
     (\<forall>x\<in>set res. \<forall>y\<in>set (collect (group_count sel n h logs)) - set res. snd y \<le> snd x)"
proof -
  let ?g = "collect (group_count sel n h logs)"
  obtain res where res: "top_k k sel n h logs = Inr res"
    and s: "smallest_of k (\<lambda>s. -1 * snd s) res ?g"
    using top_k_smallest[of k sel n h logs] by blast
  have sub: "set res \<subseteq> set ?g" and d: "distinct res"
    and len: "length res = min (nat k) (length ?g)"
    and least: "\<forall>x\<in>set res. \<forall>y\<in>set ?g - set res. -1 * snd x \<le> -1 * snd y"
    using s by (simp_all add: smallest_of_def)
  have "inj_on fst (set ?g)"
    using group_count_distinct[of sel n h logs] by (simp add: distinct_map)
  then have "inj_on fst (set res)" using sub by (rule inj_on_subset)
  then have 1: "distinct (map fst res)" using d by (simp add: distinct_map)
  have "int (length res) = max 0 (min k (int (length ?g)))" using len by linarith
  then have 2: "int (length res) = max 0 (min k (int (card (sel ` set (collect logs)))))"
    by (simp only: group_count_length)
  have 3: "\<forall>x\<in>set res. \<forall>y\<in>set ?g - set res. snd y \<le> snd x"
    using least by simp
  show ?thesis using res sub 1 2 3 by blast
qed

text \<open>
Claim C8, amended. For every collection of rows, a ranking asked for k \<le> 0 keys returns the empty list; no error is raised.
\<close>

theorem top_k_nonpositive:
  assumes "k \<le> 0"
  shows "top_k k sel n h logs = Inr []"
proof -
  obtain res where res: "top_k k sel n h logs = Inr res"
    and s: "smallest_of k (\<lambda>s. -1 * snd s) res (collect (group_count sel n h logs))"
    using top_k_smallest[of k sel n h logs] by blast
  have "length res = 0" using s assms by (simp add: smallest_of_def)
  then show ?thesis using res by simp
qed

subsection \<open>Examples\<close>

lemma mod_two:
  "Suc (Suc (Suc 0)) mod Suc (Suc 0) = Suc 0" "Suc (Suc 0) mod Suc (Suc 0) = 0"
  "2 mod Suc (Suc 0) = 0"
  by (simp_all add: mod_Suc numeral_2_eq_2)

lemmas eval_rdd = mod_two example_logs_def example_row_def top_k_def group_count_def takeOrdered_def
  nsmallest_def reduceByKey_def bucket_def Let_def upt_rec combine_def merge_value_def rdd_map_def
  rdd_reduce_def reduce_partition_def collect_def

text \<open>
Claim C6 at a stream of three rows, the first and the third in one piece and the second in the other.
\<close>

theorem merge_of_two_pieces_witness:
  "mset example_whole = mset example_left + mset example_right \<and>
   rdd_count (content_sizes [example_left, example_right]) = 3 \<and>
   rdd_count (content_sizes [example_whole]) = 3 \<and>
   rdd_reduce (\<lambda>a b. a + b) (content_sizes [example_left, example_right]) = Inr 60 \<and>
   rdd_reduce (\<lambda>a b. a + b) (content_sizes [example_whole]) = Inr 60 \<and>
   content_size_min [example_left, example_right] = Inr 10 \<and>
   content_size_min [example_whole] = Inr 10 \<and>
   content_size_max [example_left, example_right] = Inr 30 \<and>
   content_size_max [example_whole] = Inr 30 \<and>
   content_size_avg [example_left, example_right] = Inr 20 \<and>
   content_size_avg [example_whole] = Inr 20 \<and>
   group_count endpoint 2 length [example_left, example_right] = [[(''/x'', 2)], [(''/yy'', 1)]] \<and>
   group_count endpoint 1 length [example_whole] = [[(''/x'', 2), (''/yy'', 1)]]"
proof -
  have m: "mset example_whole = mset example_left + mset example_right"
    by (simp add: example_whole_def example_left_def example_right_def)
  have c: "rdd_count (content_sizes [example_left, example_right]) = 3"
    by (simp add: rdd_count_def content_sizes_def rdd_map_def example_left_def example_right_def)
  have s: "rdd_reduce (\<lambda>a b. a + b) (content_sizes [example_left, example_right]) = Inr 60"
    by (simp add: content_sizes_def rdd_map_def rdd_reduce_def reduce_partition_def
        example_left_def example_right_def example_row_def)
  have lo: "content_size_min [example_left, example_right] = Inr 10"
    by (simp add: content_size_min_def rdd_min_def content_sizes_def rdd_map_def rdd_reduce_def
        reduce_partition_def example_left_def example_right_def example_row_def)
  have hi: "content_size_max [example_left, example_right] = Inr 30"
    by (simp add: content_size_max_def rdd_max_def content_sizes_def rdd_map_def rdd_reduce_def
        reduce_partition_def example_left_def example_right_def example_row_def)
  have a: "content_size_avg [example_left, example_right] = Inr 20"
    by (simp add: content_size_avg_def s c py_div_def bind_exn_def)
  have g: "group_count endpoint 2 length [example_left, example_right] = [[(''/x'', 2)], [(''/yy'', 1)]]"
    "group_count endpoint 1 length [example_whole] = [[(''/x'', 2), (''/yy'', 1)]]"
    by (simp_all add: example_left_def example_right_def example_whole_def eval_rdd)
  show ?thesis
    using merge_of_two_pieces[OF m, where sel = endpoint and n = 2 and h = length]
      m c s lo hi a g
    by simp
qed

text \<open>
Claim C5, as stated, fails for a negative k: the ranking returns the empty list, and the length of a list is not min(k, number of distinct keys) = -1.
\<close>

theorem top_k_negative:
  "top_k (- 1) endpoint 2 length example_logs = Inr [] \<and>
   int (length ([] :: (string \<times> int) list)) \<noteq> min (- 1) (int (card (endpoint ` set (collect example_logs))))"
  by (simp add: eval_rdd)

text \<open>
The amended claim C5 at five rows in two partitions, counted into two partitions by the length of the endpoint, with k = 2: the ranking merges the two largest counts of each partition, and one pair is left out.
\<close>

theorem top_k_subset_witness:
  "top_k 2 endpoint 2 length example_logs = Inr [(''/yy'', 3), (''/x'', 1)] \<and>
   group_count endpoint 2 length example_logs = [[(''/x'', 1), (''/z'', 1)], [(''/yy'', 3)]] \<and>
   (''/z'', 1) \<in> set (collect (group_count endpoint 2 length example_logs)) - set [(''/yy'', 3), (''/x'', 1)] \<and>
   int (length [(''/yy'', 3::int), (''/x'', 1)]) = max 0 (min 2 (int (card (endpoint ` set (collect example_logs)))))"
proof -
  have e: "top_k 2 endpoint 2 length example_logs = Inr [(''/yy'', 3), (''/x'', 1)]"
    by (simp add: eval_rdd)
  have g: "group_count endpoint 2 length example_logs = [[(''/x'', 1), (''/z'', 1)], [(''/yy'', 3)]]"
    by (simp add: eval_rdd)
  have l: "(''/z'', 1) \<in> set (collect (group_count endpoint 2 length example_logs)) - set [(''/yy'', 3), (''/x'', 1)]"
    unfolding g by (simp add: collect_def)
  from top_k_subset[of 2 endpoint 2 length example_logs] obtain res where
    r: "top_k 2 endpoint 2 length example_logs = Inr res"
      "int (length res) = max 0 (min 2 (int (card (endpoint ` set (collect example_logs)))))"
    by auto
  have "res = [(''/yy'', 3), (''/x'', 1)]" using r(1) e by simp
  then have len: "int (length [(''/yy'', 3::int), (''/x'', 1)])
      = max 0 (min 2 (int (card (endpoint ` set (collect example_logs)))))"
    using r(2) by simp
  show ?thesis using e g l len by blast
qed

text \<open>
Claim C8, as stated, fails: with k = 0 the ranking returns the empty list and raises nothing.
\<close>

theorem top_k_zero_is_empty:
  "top_k 0 endpoint 2 length example_logs = Inr []"
  by (simp add: eval_rdd)

text \<open>
The amended claim C8 at k = -3.
\<close>

theorem top_k_nonpositive_witness:
  "(- 3::int) \<le> 0 \<and> top_k (- 3) endpoint 2 length example_logs = Inr []"
  using top_k_nonpositive[of "- 3" endpoint 2 length example_logs] by simp

subsection \<open>Averages\<close>

lemma trunc_div_nonneg: "0 \<le> a \<Longrightarrow> 0 < b \<Longrightarrow> trunc_div a b = a div b"
  by (cases "a = 0") (simp_all add: trunc_div_def)

lemma foldl_add: "foldl (\<lambda>a b. a + b) (x::int) xs = x + sum_list xs"
  by (induction xs arbitrary: x) auto

lemma reduce_partition_add:
  "reduce_partition (\<lambda>a b. a + b) (p::int list) = (if p = [] then [] else [sum_list p])"
  by (cases p) (simp_all add: reduce_partition_def foldl_add)

lemma partials_add:
  "sum_list (concat (map (reduce_partition (\<lambda>a b. a + b)) r)) = sum_list (concat r)"
  "concat (map (reduce_partition (\<lambda>a b. a + b)) r) = [] \<longleftrightarrow> concat r = []"
  for r :: "int rdd"
  by (induction r) (auto simp: reduce_partition_add)

lemma rdd_reduce_add:
  fixes r :: "int rdd"
  assumes "concat r \<noteq> []"
  shows "rdd_reduce (\<lambda>a b. a + b) r = Inr (sum_list (concat r))"
proof -
  let ?vals = "concat (map (reduce_partition (\<lambda>a b. a + b)) r)"
  obtain v vs where v: "?vals = v # vs"
    using assms partials_add(2)[of r] by (cases ?vals) auto
  have "foldl (\<lambda>a b. a + b) v vs = sum_list ?vals"
    unfolding v by (simp add: foldl_add)
  then show ?thesis
    using v partials_add(1)[of r] by (simp add: rdd_reduce_def)
qed

lemma content_size_avg_eq:
  assumes "collect logs \<noteq> []"
  shows "content_size_avg logs =
           Inr (sum_list (map content_size (collect logs)) div int (length (collect logs)))"
proof -
  have c: "concat (content_sizes logs) = map content_size (collect logs)"
    by (simp add: content_sizes_def rdd_map_def collect_def map_concat)
  then have "concat (content_sizes logs) \<noteq> []" using assms by simp
  then have "rdd_reduce (\<lambda>a b. a + b) (content_sizes logs) = Inr (sum_list (map content_size (collect logs)))"
    using rdd_reduce_add[of "content_sizes logs"] c by simp
  moreover have "rdd_count (content_sizes logs) = int (length (collect logs))"
    by (simp add: rdd_count_length c)
  ultimately show ?thesis
    using assms by (simp add: content_size_avg_def bind_exn_def py_div_def)
qed

lemma map_exn_total: "\<forall>x\<in>set xs. f x = Inr (g x) \<Longrightarrow> map_exn f xs = Inr (map g xs)"
  by (induction xs) (auto simp: bind_exn_def)

lemma pairs_of_map_of:
  "distinct (map fst xs) \<Longrightarrow> (k, v) \<in> set xs \<longleftrightarrow> map_of xs k = Some v"
  by simp

lemma day_counts:
  "(d, c) \<in> set (collect (rdd_distinct (reduceByKey (\<lambda>a b. a + b) n h
       (rdd_map (\<lambda>log. (day (date_time log), 1)) logs))))
   \<longleftrightarrow> d \<in> (\<lambda>log. day (date_time log)) ` set (collect logs) \<and> c = requests_on d logs"
proof -
  let ?r = "rdd_map (\<lambda>log. (day (date_time log), 1::int)) logs"
  let ?x = "collect (reduceByKey (\<lambda>a b. a + b) n h ?r)"
  have c: "concat ?r = map (\<lambda>log. (day (date_time log), 1)) (collect logs)"
    by (simp add: rdd_map_def collect_def map_concat)
  have "collect (rdd_distinct (reduceByKey (\<lambda>a b. a + b) n h ?r)) = remdups ?x"
    by (simp add: rdd_distinct_def collect_def)
  then have "(d, c) \<in> set (collect (rdd_distinct (reduceByKey (\<lambda>a b. a + b) n h ?r)))
             \<longleftrightarrow> map_of ?x d = Some c"
    using pairs_of_map_of[OF distinct_reduceByKey, of d c "\<lambda>a b. a + b" n h ?r] by simp
  also have "\<dots> \<longleftrightarrow> d \<in> (\<lambda>log. day (date_time log)) ` set (collect logs) \<and> c = requests_on d logs"
    unfolding map_of_reduceByKey c
    by (auto simp: total_of_ones requests_on_def image_image)
  finally show ?thesis .
qed

lemma day_hosts:
  "(d, h) \<in> set (collect (dailyHosts logs))
   \<longleftrightarrow> d \<in> (\<lambda>log. day (date_time log)) ` set (collect logs) \<and> h = hosts_on d logs"
proof -
  let ?P = "map (\<lambda>log. (day (date_time log), host log)) (collect logs)"
  have c: "concat (rdd_map (\<lambda>log. (day (date_time log), host log)) logs) = ?P"
    by (simp add: rdd_map_def collect_def map_concat)
  have grp: "map snd (filter (\<lambda>kv. fst kv = k) (map (\<lambda>log. (day (date_time log), host log)) L))
             = map host (filter (\<lambda>log. day (date_time log) = k) L)" for k and L :: "Row list"
    by (induction L) simp_all
  have "collect (dailyHosts logs)
        = sort_key fst (map (\<lambda>k. (k, hosts_on k logs)) (remdups (map fst ?P)))"
    unfolding dailyHosts_def Let_def groupByKey_def c
    by (simp add: rdd_map_def sortByKey_def collect_def comp_def grp hosts_on_def)
  then show ?thesis by (auto simp: image_image)
qed

lemma set_join:
  "x \<in> set (collect (join r1 r2)) \<longleftrightarrow>
     (fst x, fst (snd x)) \<in> set (concat r1) \<and> (fst x, snd (snd x)) \<in> set (concat r2)"
proof (cases x)
  case (fields k v w)
  have "(k, v, w) \<in> set (collect (join r1 r2)) \<longleftrightarrow>
          (\<exists>kv\<in>set (concat r1). \<exists>kw\<in>set (concat r2). fst kw = fst kv \<and> k = fst kv \<and> v = snd kv \<and> w = snd kw)"
    by (auto simp: join_def collect_def)
  also have "\<dots> \<longleftrightarrow> (k, v) \<in> set (concat r1) \<and> (k, w) \<in> set (concat r2)"
    by force
  finally show ?thesis using fields by simp
qed

lemma hosts_on_pos:
  assumes "d \<in> (\<lambda>log. day (date_time log)) ` set (collect logs)"
  shows "0 < hosts_on d logs"
proof -
  have "filter (\<lambda>log. day (date_time log) = d) (collect logs) \<noteq> []"
    using assms by (auto simp: filter_empty_conv)
  then show ?thesis by (simp add: hosts_on_def)
qed

lemma avgDailyReqPerHost_eq:
  "\<exists>res. avgDailyReqPerHost n h logs = Inr res \<and>
     fst ` set res = (\<lambda>log. day (date_time log)) ` set (collect logs) \<and>
     sorted (map fst res) \<and>
     (\<forall>dv\<in>set res. snd dv = requests_on (fst dv) logs div hosts_on (fst dv) logs \<and>
        0 \<le> requests_on (fst dv) logs \<and> 0 < hosts_on (fst dv) logs)"
proof -
  let ?days = "(\<lambda>log. day (date_time log)) ` set (collect logs)"
  let ?A = "rdd_distinct (reduceByKey (\<lambda>a b. a + b) n h (rdd_map (\<lambda>log. (day (date_time log), 1::int)) logs))"
  let ?J = "collect (join ?A (dailyHosts logs))"
  let ?S = "sort_key fst ?J"
  let ?f = "\<lambda>ab. bind_exn (py_div (fst (snd ab)) (snd (snd ab))) (\<lambda>q. Inr (fst ab, q))"
  let ?g = "\<lambda>ab::int \<times> int \<times> int. (fst ab, fst (snd ab) div snd (snd ab))"
  have S: "collect (sortByKey (join ?A (dailyHosts logs))) = ?S"
    by (simp add: sortByKey_def collect_def)
  have mem: "x \<in> set ?J \<longleftrightarrow>
      fst x \<in> ?days \<and> fst (snd x) = requests_on (fst x) logs \<and> snd (snd x) = hosts_on (fst x) logs" for x
    using set_join[of x ?A "dailyHosts logs"] day_counts[of "fst x" "fst (snd x)" n h logs]
      day_hosts[of "fst x" "snd (snd x)" logs]
    by (auto simp: collect_def)
  have "\<forall>x\<in>set ?S. ?f x = Inr (?g x)"
  proof
    fix x assume "x \<in> set ?S"
    then have "fst x \<in> ?days" "snd (snd x) = hosts_on (fst x) logs" using mem[of x] by simp_all
    then have "snd (snd x) \<noteq> 0" using hosts_on_pos[of "fst x" logs] by simp
    then show "?f x = Inr (?g x)" by (simp add: py_div_def bind_exn_def)
  qed
  then have "map_exn ?f ?S = Inr (map ?g ?S)"
    by (rule map_exn_total)
  then have res: "avgDailyReqPerHost n h logs = Inr (map ?g ?S)"
    unfolding avgDailyReqPerHost_def Let_def S .
  have "fst ` set (map ?g ?S) = ?days"
  proof
    show "fst ` set (map ?g ?S) \<subseteq> ?days" using mem by auto
    show "?days \<subseteq> fst ` set (map ?g ?S)"
    proof
      fix d assume "d \<in> ?days"
      then have "(d, (requests_on d logs, hosts_on d logs)) \<in> set ?J" using mem by simp
      then have "fst (?g (d, (requests_on d logs, hosts_on d logs))) \<in> fst ` set (map ?g ?S)"
        by (metis (no_types, lifting) image_eqI set_map set_sort)
      then show "d \<in> fst ` set (map ?g ?S)" by simp
    qed
  qed
  moreover have "sorted (map fst (map ?g ?S))"
    by (simp add: comp_def)
  moreover have "\<forall>dv\<in>set (map ?g ?S). snd dv = requests_on (fst dv) logs div hosts_on (fst dv) logs \<and>
        0 \<le> requests_on (fst dv) logs \<and> 0 < hosts_on (fst dv) logs"
    using mem hosts_on_pos[of _ logs] by (auto simp: requests_on_def)
  ultimately show ?thesis using res by blast
qed

text \<open>
Claim C7, as stated, fails for the mean: the division of the notebook rounds down, not toward zero. Two rows with content sizes -5 and 0 have the mean -3, and truncation gives -2.
\<close>

theorem mean_floors:
  "content_size_avg [[example_row ''a.org'' ''/x'' 1 (- 5), example_row ''a.org'' ''/x'' 1 0]] = Inr (- 3) \<and>
   trunc_div (- 5 + 0) 2 = - 2"
  by (simp add: content_size_avg_def content_sizes_def rdd_map_def rdd_reduce_def
      reduce_partition_def rdd_count_def py_div_def bind_exn_def example_row_def trunc_div_def)

text \<open>
Claim C7, amended. For every non-empty collection of rows, the mean content size is the floor of the sum divided by the count, which is the truncated quotient whenever the sum is not negative. The average number of requests per host has one entry for each day of the month that occurs, in increasing order of the day, and its value is the number of requests of the day divided by the number of distinct hosts of the day, truncated; there both numbers are positive, so flooring and truncating agree.
\<close>

theorem averages_by_floor_division:
  assumes "collect logs \<noteq> []"
  shows "content_size_avg logs =
           Inr (sum_list (map content_size (collect logs)) div int (length (collect logs))) \<and>
         (0 \<le> sum_list (map content_size (collect logs)) \<longrightarrow>
            content_size_avg logs =
              Inr (trunc_div (sum_list (map content_size (collect logs))) (int (length (collect logs))))) \<and>
         (\<exists>res. avgDailyReqPerHost n h logs = Inr res \<and>
            fst ` set res = (\<lambda>log. day (date_time log)) ` set (collect logs) \<and>
            sorted (map fst res) \<and>
            (\<forall>dv\<in>set res. snd dv = trunc_div (requests_on (fst dv) logs) (hosts_on (fst dv) logs)))"
proof -
  have len: "0 < int (length (collect logs))" using assms by simp
  have 1: "content_size_avg logs =
           Inr (sum_list (map content_size (collect logs)) div int (length (collect logs)))"
    by (rule content_size_avg_eq[OF assms])
  have 2: "0 \<le> sum_list (map content_size (collect logs)) \<longrightarrow>
            content_size_avg logs =
              Inr (trunc_div (sum_list (map content_size (collect logs))) (int (length (collect logs))))"
    using 1 trunc_div_nonneg[OF _ len] by simp
  from avgDailyReqPerHost_eq[of n h logs] obtain res where res:
    "avgDailyReqPerHost n h logs = Inr res"
    "fst ` set res = (\<lambda>log. day (date_time log)) ` set (collect logs)"
    "sorted (map fst res)"
    "\<forall>dv\<in>set res. snd dv = requests_on (fst dv) logs div hosts_on (fst dv) logs \<and>
        0 \<le> requests_on (fst dv) logs \<and> 0 < hosts_on (fst dv) logs"
    by blast
  have "\<forall>dv\<in>set res. snd dv = trunc_div (requests_on (fst dv) logs) (hosts_on (fst dv) logs)"
    using res(4) trunc_div_nonneg by simp
  then show ?thesis using 1 2 res(1,2,3) by blast
qed

text \<open>
The amended claim C7 at five rows over two days.
\<close>

theorem averages_by_floor_division_witness:
  "collect example_logs \<noteq> [] \<and>
   content_size_avg example_logs = Inr 30 \<and>
   (0::int) \<le> sum_list (map content_size (collect example_logs)) \<and>
   trunc_div (sum_list (map content_size (collect example_logs))) (int (length (collect example_logs))) = 30 \<and>
   avgDailyReqPerHost 2 nat example_logs = Inr [(1, 1), (2, 1)] \<and>
   trunc_div (requests_on 1 example_logs) (hosts_on 1 example_logs) = 1 \<and>
   trunc_div (requests_on 2 example_logs) (hosts_on 2 example_logs) = 1"
proof -
  have ne: "collect example_logs \<noteq> []"
    by (simp add: example_logs_def collect_def)
  have s: "sum_list (map content_size (collect example_logs)) = 150"
    "int (length (collect example_logs)) = 5"
    by (simp_all add: example_logs_def example_row_def collect_def)
  have t: "trunc_div 150 5 = 30"
    by (simp add: trunc_div_def)
  have a: "avgDailyReqPerHost 2 nat example_logs = Inr [(1, 1), (2, 1)]"
    by (simp add: avgDailyReqPerHost_def dailyHosts_def Let_def groupByKey_def join_def
        sortByKey_def rdd_distinct_def py_div_def bind_exn_def eval_rdd)
  have r: "requests_on 1 example_logs = 2" "hosts_on 1 example_logs = 2"
    "requests_on 2 example_logs = 3" "hosts_on 2 example_logs = 2"
    by (simp_all add: requests_on_def hosts_on_def example_logs_def example_row_def collect_def)
  have q: "trunc_div 2 2 = 1" "trunc_div 3 2 = 1"
    by (simp_all add: trunc_div_def)
  show ?thesis
    using averages_by_floor_division[OF ne, of 2 nat] ne s t a r q by simp
qed

end
